theory Spec2Isabelle
  imports Main "HOL-Library.Multiset"
begin

section \<open>The store: nodes, colours and the tree container\<close>

text \<open>
  A Go pointer \<^verbatim>\<open>*node[T]\<close> is an optional address: \<open>None\<close> is \<^verbatim>\<open>nil\<close>.
  The store \<open>heap\<close> maps every address to a node; \<open>nxt\<close> is the first address never
  handed out, so that \<^verbatim>\<open>&node[T]{...}\<close> allocates at \<open>nxt\<close>.  Dereferencing \<^verbatim>\<open>nil\<close>
  panics; the panic carries the name of the expression that was \<^verbatim>\<open>nil\<close>.
\<close>

datatype color = black | red

type_synonym ptr = "nat option"

record 'a node =
  left :: ptr
  right :: ptr
  parent :: ptr
  clr :: color
  val :: 'a

record 'a RBTree =
  root :: ptr
  len :: int
  heap :: "nat \<Rightarrow> 'a node"
  nxt :: nat

datatype panic = NilDeref string | IndexOutOfRange | MakeSliceLen

text \<open>Modelled from the spec: the package-level error value \<^verbatim>\<open>ErrValueDoesNotExist\<close>
  (the spec's NotFound), which \<^verbatim>\<open>Delete\<close> returns and which is declared outside the
  given sources.\<close>

datatype err = ErrValueDoesNotExist

type_synonym 'r res = "(panic + 'r) option"

definition color :: "'a RBTree \<Rightarrow> ptr \<Rightarrow> color" where
  "color rb nd = (case nd of None \<Rightarrow> black | Some a \<Rightarrow> clr (heap rb a))"

definition NewRBTree :: "('a::zero) RBTree" where
  "NewRBTree = \<lparr>root = None, len = 0,
     heap = (\<lambda>_. \<lparr>left = None, right = None, parent = None, clr = black, val = 0\<rparr>),
     nxt = 0\<rparr>"

definition Len :: "'a RBTree \<Rightarrow> int" where
  "Len rb = len rb"

definition set_left :: "'a RBTree \<Rightarrow> nat \<Rightarrow> ptr \<Rightarrow> 'a RBTree" where
  "set_left rb a p = rb\<lparr>heap := (heap rb)(a := (heap rb a)\<lparr>left := p\<rparr>)\<rparr>"

definition set_right :: "'a RBTree \<Rightarrow> nat \<Rightarrow> ptr \<Rightarrow> 'a RBTree" where
  "set_right rb a p = rb\<lparr>heap := (heap rb)(a := (heap rb a)\<lparr>right := p\<rparr>)\<rparr>"

definition set_parent :: "'a RBTree \<Rightarrow> nat \<Rightarrow> ptr \<Rightarrow> 'a RBTree" where
  "set_parent rb a p = rb\<lparr>heap := (heap rb)(a := (heap rb a)\<lparr>parent := p\<rparr>)\<rparr>"

definition set_clr :: "'a RBTree \<Rightarrow> nat \<Rightarrow> color \<Rightarrow> 'a RBTree" where
  "set_clr rb a c = rb\<lparr>heap := (heap rb)(a := (heap rb a)\<lparr>clr := c\<rparr>)\<rparr>"

text \<open>The error monad of panics, and the dereference of a pointer.\<close>

definition bindE :: "panic + 'b \<Rightarrow> ('b \<Rightarrow> panic + 'c) \<Rightarrow> panic + 'c" where
  "bindE m f = (case m of Inl e \<Rightarrow> Inl e | Inr x \<Rightarrow> f x)"

definition deref :: "string \<Rightarrow> ptr \<Rightarrow> panic + nat" where
  "deref lbl p = (case p of None \<Rightarrow> Inl (NilDeref lbl) | Some a \<Rightarrow> Inr a)"

text \<open>A \<^verbatim>\<open>for cond { body }\<close> loop whose body may panic or, through an inner loop,
  not return.  Not returning is the value \<open>None\<close>.\<close>

partial_function (option) whileE ::
  "('s \<Rightarrow> bool) \<Rightarrow> ('s \<Rightarrow> 's res) \<Rightarrow> 's \<Rightarrow> 's res" where
  "whileE c b s =
     (if c s then
        (case b s of
           None \<Rightarrow> None
         | Some (Inl e) \<Rightarrow> Some (Inl e)
         | Some (Inr s') \<Rightarrow> whileE c b s')
      else Some (Inr s))"

declare whileE.simps [code]

definition bindR :: "'b res \<Rightarrow> ('b \<Rightarrow> 'c res) \<Rightarrow> 'c res" where
  "bindR m f = (case m of None \<Rightarrow> None | Some (Inl e) \<Rightarrow> Some (Inl e) | Some (Inr x) \<Rightarrow> f x)"

section \<open>The operations of \<^verbatim>\<open>src/bst/rb.go\<close>\<close>

subsection \<open>replace and the rotations\<close>

text \<open>\<^verbatim>\<open>replace(nd, sub)\<close>: the node \<open>nd\<close> is not \<^verbatim>\<open>nil\<close> at any call site (the
  rotations test it, \<^verbatim>\<open>Delete\<close> has found it), so it is an address.\<close>

definition replace :: "'a RBTree \<Rightarrow> nat \<Rightarrow> ptr \<Rightarrow> 'a RBTree" where
  "replace rb nd sub =
     (let p = parent (heap rb nd);
          rb1 = (case p of
                   None \<Rightarrow> rb\<lparr>root := sub\<rparr>
                 | Some pa \<Rightarrow>
                     if Some nd = left (heap rb pa) then set_left rb pa sub
                     else set_right rb pa sub)
      in case sub of None \<Rightarrow> rb1 | Some s \<Rightarrow> set_parent rb1 s p)"

definition rotateLeft :: "'a RBTree \<Rightarrow> ptr \<Rightarrow> 'a RBTree" where
  "rotateLeft rb nd =
     (case nd of
        None \<Rightarrow> rb
      | Some n \<Rightarrow>
          (case right (heap rb n) of
             None \<Rightarrow> rb
           | Some r \<Rightarrow>
               let rb1 = replace rb n (Some r);
                   rb2 = set_parent rb1 n (Some r);
                   rb3 = set_right rb2 n (left (heap rb2 r));
                   rb4 = (case right (heap rb3 n) of
                            None \<Rightarrow> rb3
                          | Some c \<Rightarrow> set_parent rb3 c (Some n))
               in set_left rb4 r (Some n)))"

definition rotateRight :: "'a RBTree \<Rightarrow> ptr \<Rightarrow> 'a RBTree" where
  "rotateRight rb nd =
     (case nd of
        None \<Rightarrow> rb
      | Some n \<Rightarrow>
          (case left (heap rb n) of
             None \<Rightarrow> rb
           | Some l \<Rightarrow>
               let rb1 = replace rb n (Some l);
                   rb2 = set_parent rb1 n (Some l);
                   rb3 = set_left rb2 n (right (heap rb2 l));
                   rb4 = (case left (heap rb3 n) of
                            None \<Rightarrow> rb3
                          | Some c \<Rightarrow> set_parent rb3 c (Some n))
               in set_right rb4 l (Some n)))"

subsection \<open>findNode, Exists, getMin\<close>

partial_function (option) findNode_loop :: "'a RBTree \<Rightarrow> 'a::linorder \<Rightarrow> ptr \<Rightarrow> ptr option" where
  "findNode_loop rb v nd =
     (case nd of
        None \<Rightarrow> Some None
      | Some a \<Rightarrow>
          if val (heap rb a) = v then Some (Some a)
          else if val (heap rb a) < v then findNode_loop rb v (right (heap rb a))
          else findNode_loop rb v (left (heap rb a)))"

declare findNode_loop.simps [code]

definition findNode :: "'a RBTree \<Rightarrow> 'a::linorder \<Rightarrow> ptr option" where
  "findNode rb v = findNode_loop rb v (root rb)"

definition Exists :: "'a RBTree \<Rightarrow> 'a::linorder \<Rightarrow> bool option" where
  "Exists rb v = (case findNode rb v of None \<Rightarrow> None | Some nd \<Rightarrow> Some (nd \<noteq> None))"

partial_function (option) getMin :: "'a RBTree \<Rightarrow> nat \<Rightarrow> nat option" where
  "getMin rb nd =
     (case left (heap rb nd) of None \<Rightarrow> Some nd | Some l \<Rightarrow> getMin rb l)"

declare getMin.simps [code]

subsection \<open>Insert and its fixup\<close>

text \<open>The text of \<^verbatim>\<open>fixInsert\<close> and of \<^verbatim>\<open>Insert\<close> is the same in \<^verbatim>\<open>src/bst/rb.go\<close>
  and in \<^verbatim>\<open>src/unnamed/part_000\<close>; only the rotations they call differ.  The two
  rotations are therefore parameters \<open>rl\<close> and \<open>rr\<close> of the shared text.
  The loop variable \<open>nd\<close> of \<^verbatim>\<open>fixInsert\<close> is an address: it starts as the new node
  and is afterwards \<^verbatim>\<open>p\<close> or \<^verbatim>\<open>p.parent\<close>, both dereferenced before the assignment.\<close>

definition fixInsert_body_with ::
  "('a RBTree \<Rightarrow> ptr \<Rightarrow> 'a RBTree) \<Rightarrow> ('a RBTree \<Rightarrow> ptr \<Rightarrow> 'a RBTree) \<Rightarrow>
   'a RBTree \<times> nat \<Rightarrow> panic + ('a RBTree \<times> nat)" where
  "fixInsert_body_with rl rr s =
     (case s of (rb, nd) \<Rightarrow>
      bindE (deref ''nd.parent'' (parent (heap rb nd))) (\<lambda>p.
      bindE (deref ''p.parent'' (parent (heap rb p))) (\<lambda>g.
      if Some p = left (heap rb g) then
        (let psib = right (heap rb g) in
         if color rb psib = red then
           bindE (deref ''psib'' psib) (\<lambda>ps.
           let rb1 = set_clr rb ps black;
               rb2 = set_clr rb1 p black in
           bindE (deref ''p.parent'' (parent (heap rb2 p))) (\<lambda>g2.
           let rb3 = set_clr rb2 g2 red in
           bindE (deref ''p.parent'' (parent (heap rb3 p))) (\<lambda>nd'.
           Inr (rb3, nd'))))
         else
           (let (rb1, nd1) =
                  (if Some nd = right (heap rb p) then (rl rb (Some p), p)
                   else (rb, nd)) in
            bindE (deref ''nd.parent'' (parent (heap rb1 nd1))) (\<lambda>np.
            let rb2 = set_clr rb1 np black in
            bindE (deref ''nd.parent'' (parent (heap rb2 nd1))) (\<lambda>np2.
            bindE (deref ''nd.parent.parent'' (parent (heap rb2 np2))) (\<lambda>ng.
            let rb3 = set_clr rb2 ng red in
            bindE (deref ''nd.parent'' (parent (heap rb3 nd1))) (\<lambda>np3.
            Inr (rr rb3 (parent (heap rb3 np3)), nd1)))))))
      else
        (let psib = left (heap rb g) in
         if color rb psib = red then
           bindE (deref ''psib'' psib) (\<lambda>ps.
           let rb1 = set_clr rb ps black;
               rb2 = set_clr rb1 p black in
           bindE (deref ''p.parent'' (parent (heap rb2 p))) (\<lambda>g2.
           let rb3 = set_clr rb2 g2 red in
           bindE (deref ''p.parent'' (parent (heap rb3 p))) (\<lambda>nd'.
           Inr (rb3, nd'))))
         else
           (let (rb1, nd1) =
                  (if Some nd = left (heap rb p) then (rr rb (Some p), p)
                   else (rb, nd)) in
            bindE (deref ''nd.parent'' (parent (heap rb1 nd1))) (\<lambda>np.
            let rb2 = set_clr rb1 np black in
            bindE (deref ''nd.parent'' (parent (heap rb2 nd1))) (\<lambda>np2.
            bindE (deref ''nd.parent.parent'' (parent (heap rb2 np2))) (\<lambda>ng.
            let rb3 = set_clr rb2 ng red in
            bindE (deref ''nd.parent'' (parent (heap rb3 nd1))) (\<lambda>np3.
            Inr (rl rb3 (parent (heap rb3 np3)), nd1))))))))))"

text \<open>The terminal step \<^verbatim>\<open>rb.root.clr = black\<close> of both fixups.\<close>

definition blacken_root :: "'a RBTree \<Rightarrow> panic + 'a RBTree" where
  "blacken_root rb = bindE (deref ''rb.root'' (root rb)) (\<lambda>r. Inr (set_clr rb r black))"

definition fixInsert_with ::
  "('a RBTree \<Rightarrow> ptr \<Rightarrow> 'a RBTree) \<Rightarrow> ('a RBTree \<Rightarrow> ptr \<Rightarrow> 'a RBTree) \<Rightarrow>
   'a RBTree \<Rightarrow> ptr \<Rightarrow> 'a RBTree res" where
  "fixInsert_with rl rr rb nd =
     (case nd of
        None \<Rightarrow> Some (Inr rb)
      | Some n \<Rightarrow>
          if color rb nd \<noteq> red then Some (Inr rb)
          else
            bindR (whileE (\<lambda>(rb, nd). color rb (parent (heap rb nd)) = red)
                          (\<lambda>s. Some (fixInsert_body_with rl rr s)) (rb, n))
                  (\<lambda>(rb', nd'). Some (blacken_root rb')))"

text \<open>The descent of \<^verbatim>\<open>Insert\<close>: the loop state is \<open>(nd, p)\<close>.\<close>

definition descend_body :: "'a RBTree \<Rightarrow> 'a::linorder \<Rightarrow> ptr \<times> ptr \<Rightarrow> panic + (ptr \<times> ptr)" where
  "descend_body rb v s =
     (case s of (nd, p) \<Rightarrow>
      bindE (deref ''nd'' nd) (\<lambda>a.
      Inr (if v \<le> val (heap rb a) then left (heap rb a) else right (heap rb a), nd)))"

text \<open>\<^verbatim>\<open>&node[T]{value: val}\<close>: a fresh node, every other field zero.
  \<^verbatim>\<open>rb.len\<close> is a Go \<^verbatim>\<open>int\<close>; no store holds \<open>2^63\<close> nodes, so it is an unbounded
  integer here.\<close>

definition alloc :: "'a RBTree \<Rightarrow> 'a \<Rightarrow> 'a RBTree" where
  "alloc rb v =
     rb\<lparr>heap := (heap rb)(nxt rb := \<lparr>left = None, right = None, parent = None, clr = black, val = v\<rparr>),
        nxt := Suc (nxt rb)\<rparr>"

definition Insert_with ::
  "('a RBTree \<Rightarrow> ptr \<Rightarrow> 'a RBTree) \<Rightarrow> ('a RBTree \<Rightarrow> ptr \<Rightarrow> 'a RBTree) \<Rightarrow>
   'a RBTree \<Rightarrow> 'a::linorder \<Rightarrow> 'a RBTree res" where
  "Insert_with rl rr rb v =
     bindR (whileE (\<lambda>(nd, p). nd \<noteq> None) (\<lambda>s. Some (descend_body rb v s)) (root rb, None))
       (\<lambda>(nd, p).
          let newNd = nxt rb;
              rb1 = alloc (rb\<lparr>len := len rb + 1\<rparr>) v in
          case p of
            None \<Rightarrow> Some (Inr ((set_clr rb1 newNd black)\<lparr>root := Some newNd\<rparr>))
          | Some pa \<Rightarrow>
              let rb2 = set_parent (set_clr rb1 newNd red) newNd p;
                  rb3 = (if v \<le> val (heap rb2 pa) then set_left rb2 pa (Some newNd)
                         else set_right rb2 pa (Some newNd))
              in fixInsert_with rl rr rb3 (Some newNd))"

definition fixInsert :: "'a RBTree \<Rightarrow> ptr \<Rightarrow> 'a RBTree res" where
  "fixInsert = fixInsert_with rotateLeft rotateRight"

definition Insert :: "'a RBTree \<Rightarrow> 'a::linorder \<Rightarrow> 'a RBTree res" where
  "Insert = Insert_with rotateLeft rotateRight"

subsection \<open>GetValues: the Morris traversal\<close>

text \<open>The loop state is \<open>(rb, nd, i, values)\<close>.  \<^verbatim>\<open>make([]T, n)\<close> panics on a negative
  length, \<^verbatim>\<open>values[i] = x\<close> panics out of range.\<close>

definition GetValues_body ::
  "'a RBTree \<times> ptr \<times> nat \<times> 'a list \<Rightarrow> ('a RBTree \<times> ptr \<times> nat \<times> 'a list) res" where
  "GetValues_body s =
     (case s of (rb, nd, i, values) \<Rightarrow>
      (case nd of
         None \<Rightarrow> Some (Inl (NilDeref ''nd''))
       | Some n \<Rightarrow>
           (case left (heap rb n) of
              Some l \<Rightarrow>
                bindR (whileE (\<lambda>pre. right (heap rb pre) \<noteq> None \<and> right (heap rb pre) \<noteq> Some n)
                              (\<lambda>pre. Some (deref ''pre.right'' (right (heap rb pre)))) l)
                  (\<lambda>pre.
                     if right (heap rb pre) = None then
                       (let rb1 = set_right rb pre (Some n) in
                        Some (Inr (rb1, left (heap rb1 n), i, values)))
                     else if i < length values then
                       (let values1 = values[i := val (heap rb n)];
                            nd1 = right (heap rb n) in
                        Some (Inr (set_right rb pre None, nd1, Suc i, values1)))
                     else Some (Inl IndexOutOfRange))
            | None \<Rightarrow>
                if i < length values then
                  Some (Inr (rb, right (heap rb n), Suc i, values[i := val (heap rb n)]))
                else Some (Inl IndexOutOfRange))))"

definition GetValues :: "('a::zero) RBTree \<Rightarrow> ('a list \<times> 'a RBTree) res" where
  "GetValues rb =
     (if Len rb < 0 then Some (Inl MakeSliceLen)
      else
        bindR (whileE (\<lambda>(rb, nd, i, values). nd \<noteq> None) GetValues_body
                 (rb, root rb, 0, replicate (nat (Len rb)) 0))
          (\<lambda>(rb', nd, i, values). Some (Inr (values, rb'))))"

subsection \<open>Delete and its fixup\<close>

definition fixDelete_body :: "'a RBTree \<times> ptr \<Rightarrow> panic + ('a RBTree \<times> ptr)" where
  "fixDelete_body s =
     (case s of (rb, nd) \<Rightarrow>
      bindE (deref ''nd'' nd) (\<lambda>n.
      bindE (deref ''nd.parent'' (parent (heap rb n))) (\<lambda>p.
      if nd = left (heap rb p) then
        bindE (let sib = right (heap rb p) in
               if color rb sib = red then
                 bindE (deref ''sib'' sib) (\<lambda>s.
                 let rb1 = set_clr rb s black in
                 bindE (deref ''nd.parent'' (parent (heap rb1 n))) (\<lambda>p1.
                 let rb2 = set_clr rb1 p1 red;
                     rb3 = rotateLeft rb2 (parent (heap rb2 n)) in
                 bindE (deref ''nd.parent'' (parent (heap rb3 n))) (\<lambda>p3.
                 Inr (rb3, right (heap rb3 p3)))))
               else Inr (rb, sib)) (\<lambda>(rb, sib).
        bindE (deref ''sib'' sib) (\<lambda>s.
        if color rb (left (heap rb s)) = black \<and> color rb (right (heap rb s)) = black then
          (let rb1 = set_clr rb s red in Inr (rb1, parent (heap rb1 n)))
        else
          bindE (if color rb (right (heap rb s)) = black then
                   bindE (deref ''sib.left'' (left (heap rb s))) (\<lambda>sl.
                   let rb1 = set_clr rb sl black;
                       rb2 = set_clr rb1 s red;
                       rb3 = rotateRight rb2 (Some s) in
                   bindE (deref ''nd.parent'' (parent (heap rb3 n))) (\<lambda>p3.
                   Inr (rb3, right (heap rb3 p3))))
                 else Inr (rb, sib)) (\<lambda>(rb, sib).
          bindE (deref ''sib'' sib) (\<lambda>s.
          bindE (deref ''nd.parent'' (parent (heap rb n))) (\<lambda>p1.
          let rb1 = set_clr rb s (clr (heap rb p1)) in
          bindE (deref ''nd.parent'' (parent (heap rb1 n))) (\<lambda>p2.
          let rb2 = set_clr rb1 p2 black in
          bindE (deref ''sib.right'' (right (heap rb2 s))) (\<lambda>sr.
          let rb3 = set_clr rb2 sr black;
              rb4 = rotateLeft rb3 (parent (heap rb3 n)) in
          Inr (rb4, root rb4))))))))
      else
        bindE (let sib = left (heap rb p) in
               if color rb sib = red then
                 bindE (deref ''sib'' sib) (\<lambda>s.
                 let rb1 = set_clr rb s black in
                 bindE (deref ''nd.parent'' (parent (heap rb1 n))) (\<lambda>p1.
                 let rb2 = set_clr rb1 p1 red;
                     rb3 = rotateRight rb2 (parent (heap rb2 n)) in
                 bindE (deref ''nd.parent'' (parent (heap rb3 n))) (\<lambda>p3.
                 Inr (rb3, left (heap rb3 p3)))))
               else Inr (rb, sib)) (\<lambda>(rb, sib).
        bindE (deref ''sib'' sib) (\<lambda>s.
        if color rb (left (heap rb s)) = black \<and> color rb (right (heap rb s)) = black then
          (let rb1 = set_clr rb s red in Inr (rb1, parent (heap rb1 n)))
        else
          bindE (if color rb (left (heap rb s)) = black then
                   bindE (deref ''sib.right'' (right (heap rb s))) (\<lambda>sr.
                   let rb1 = set_clr rb sr black;
                       rb2 = set_clr rb1 s red;
                       rb3 = rotateRight rb2 (Some s) in
                   bindE (deref ''nd.parent'' (parent (heap rb3 n))) (\<lambda>p3.
                   Inr (rb3, left (heap rb3 p3))))
                 else Inr (rb, sib)) (\<lambda>(rb, sib).
          bindE (deref ''sib'' sib) (\<lambda>s.
          bindE (deref ''nd.parent'' (parent (heap rb n))) (\<lambda>p1.
          let rb1 = set_clr rb s (clr (heap rb p1)) in
          bindE (deref ''nd.parent'' (parent (heap rb1 n))) (\<lambda>p2.
          let rb2 = set_clr rb1 p2 black in
          bindE (deref ''sib.left'' (left (heap rb2 s))) (\<lambda>sl.
          let rb3 = set_clr rb2 sl black;
              rb4 = rotateRight rb3 (parent (heap rb3 n)) in
          Inr (rb4, root rb4)))))))))))"

definition fixDelete :: "'a RBTree \<Rightarrow> ptr \<Rightarrow> 'a RBTree res" where
  "fixDelete rb nd =
     bindR (whileE (\<lambda>(rb, nd). nd \<noteq> root rb \<and> color rb nd = black)
                   (\<lambda>s. Some (fixDelete_body s)) (rb, nd))
           (\<lambda>(rb', nd'). Some (blacken_root rb'))"

text \<open>The three-way branch of \<^verbatim>\<open>Delete\<close> that unlinks the found node \<open>nd\<close>; it yields
  the store, \<^verbatim>\<open>ogColor\<close> and \<^verbatim>\<open>ndToFix\<close>.\<close>

definition Delete_unlink :: "'a RBTree \<Rightarrow> nat \<Rightarrow> ('a RBTree \<times> color \<times> ptr) res" where
  "Delete_unlink rb nd =
     (let ogColor = clr (heap rb nd) in
      if left (heap rb nd) = None then
        (let ndToFix = right (heap rb nd) in
         Some (Inr (replace rb nd ndToFix, ogColor, ndToFix)))
      else if right (heap rb nd) = None then
        (let ndToFix = left (heap rb nd) in
         Some (Inr (replace rb nd ndToFix, ogColor, ndToFix)))
      else
        bindR (Some (deref ''nd.right'' (right (heap rb nd)))) (\<lambda>r.
        (case getMin rb r of
           None \<Rightarrow> None
         | Some sub \<Rightarrow>
             (let ogColor = clr (heap rb sub);
                  ndToFix = right (heap rb sub) in
              bindR (if parent (heap rb sub) \<noteq> Some nd then
                       (let rb1 = replace rb sub (right (heap rb sub));
                            rb2 = set_right rb1 sub (right (heap rb1 nd)) in
                        Some (bindE (deref ''sub.right'' (right (heap rb2 sub))) (\<lambda>sr.
                              Inr (set_parent rb2 sr (Some sub)))))
                     else Some (Inr rb)) (\<lambda>rb3.
              let rb4 = replace rb3 nd (Some sub);
                  rb5 = set_left rb4 sub (left (heap rb4 nd));
                  rb6 = (case left (heap rb5 sub) of
                           None \<Rightarrow> rb5
                         | Some sl \<Rightarrow> set_parent rb5 sl (Some sub));
                  rb7 = set_clr rb6 sub (clr (heap rb6 nd))
              in Some (Inr (rb7, ogColor, ndToFix)))))))"

definition Delete :: "'a RBTree \<Rightarrow> 'a::linorder \<Rightarrow> (err option \<times> 'a RBTree) res" where
  "Delete rb v =
     (case findNode rb v of
        None \<Rightarrow> None
      | Some None \<Rightarrow> Some (Inr (Some ErrValueDoesNotExist, rb))
      | Some (Some nd) \<Rightarrow>
          bindR (Delete_unlink (rb\<lparr>len := len rb - 1\<rparr>) nd) (\<lambda>(rb1, ogColor, ndToFix).
          if ogColor = black then
            bindR (fixDelete rb1 ndToFix) (\<lambda>rb2. Some (Inr (None, rb2)))
          else Some (Inr (None, rb1))))"

section \<open>The operations of \<^verbatim>\<open>src/unnamed/part_000\<close>\<close>

text \<open>This file has its own rotations, which do not call \<^verbatim>\<open>replace\<close> and which colour
  a promoted root black; its \<^verbatim>\<open>Exists\<close> has the search loop inline; its \<^verbatim>\<open>Delete\<close>
  does nothing.\<close>

definition rotateLeft_part0 :: "'a RBTree \<Rightarrow> ptr \<Rightarrow> 'a RBTree" where
  "rotateLeft_part0 rb nd =
     (case nd of
        None \<Rightarrow> rb
      | Some n \<Rightarrow>
          (case right (heap rb n) of
             None \<Rightarrow> rb
           | Some r \<Rightarrow>
               let p = parent (heap rb n);
                   rb1 = set_parent rb r p;
                   rb2 = (case p of
                            None \<Rightarrow> set_clr (rb1\<lparr>root := Some r\<rparr>) r black
                          | Some pa \<Rightarrow>
                              if Some n = left (heap rb1 pa) then set_left rb1 pa (Some r)
                              else set_right rb1 pa (Some r));
                   rb3 = set_parent rb2 n (Some r);
                   rb4 = set_right rb3 n (left (heap rb3 r));
                   rb5 = (case right (heap rb4 n) of
                            None \<Rightarrow> rb4
                          | Some c \<Rightarrow> set_parent rb4 c (Some n))
               in set_left rb5 r (Some n)))"

definition rotateRight_part0 :: "'a RBTree \<Rightarrow> ptr \<Rightarrow> 'a RBTree" where
  "rotateRight_part0 rb nd =
     (case nd of
        None \<Rightarrow> rb
      | Some n \<Rightarrow>
          (case left (heap rb n) of
             None \<Rightarrow> rb
           | Some l \<Rightarrow>
               let p = parent (heap rb n);
                   rb1 = set_parent rb l p;
                   rb2 = (case p of
                            None \<Rightarrow> set_clr (rb1\<lparr>root := Some l\<rparr>) l black
                          | Some pa \<Rightarrow>
                              if Some n = left (heap rb1 pa) then set_left rb1 pa (Some l)
                              else set_right rb1 pa (Some l));
                   rb3 = set_parent rb2 n (Some l);
                   rb4 = set_left rb3 n (right (heap rb3 l));
                   rb5 = (case left (heap rb4 n) of
                            None \<Rightarrow> rb4
                          | Some c \<Rightarrow> set_parent rb4 c (Some n))
               in set_right rb5 l (Some n)))"

definition fixInsert_part0 :: "'a RBTree \<Rightarrow> ptr \<Rightarrow> 'a RBTree res" where
  "fixInsert_part0 = fixInsert_with rotateLeft_part0 rotateRight_part0"

definition Insert_part0 :: "'a RBTree \<Rightarrow> 'a::linorder \<Rightarrow> 'a RBTree res" where
  "Insert_part0 = Insert_with rotateLeft_part0 rotateRight_part0"

partial_function (option) Exists_part0_loop :: "'a RBTree \<Rightarrow> 'a::linorder \<Rightarrow> ptr \<Rightarrow> bool option" where
  "Exists_part0_loop rb v nd =
     (case nd of
        None \<Rightarrow> Some False
      | Some a \<Rightarrow>
          if v = val (heap rb a) then Some True
          else if v > val (heap rb a) then Exists_part0_loop rb v (right (heap rb a))
          else Exists_part0_loop rb v (left (heap rb a)))"

declare Exists_part0_loop.simps [code]

definition Exists_part0 :: "'a RBTree \<Rightarrow> 'a::linorder \<Rightarrow> bool option" where
  "Exists_part0 rb v = Exists_part0_loop rb v (root rb)"

definition Delete_part0 :: "'a RBTree \<Rightarrow> 'a \<Rightarrow> (err option \<times> 'a RBTree) res" where
  "Delete_part0 rb v = Some (Inr (None, rb))"

section \<open>Sequences of public operations\<close>

datatype 'a op = OpInsert 'a | OpDelete 'a

fun run_ops :: "'a RBTree \<Rightarrow> ('a::linorder) op list \<Rightarrow> 'a RBTree res" where
  "run_ops rb [] = Some (Inr rb)"
| "run_ops rb (OpInsert v # ops) = bindR (Insert rb v) (\<lambda>rb'. run_ops rb' ops)"
| "run_ops rb (OpDelete v # ops) = bindR (Delete rb v) (\<lambda>(e, rb'). run_ops rb' ops)"

fun run_inserts ::
  "('a RBTree \<Rightarrow> 'a \<Rightarrow> 'a RBTree res) \<Rightarrow> 'a RBTree \<Rightarrow> 'a list \<Rightarrow> 'a RBTree res" where
  "run_inserts ins rb [] = Some (Inr rb)"
| "run_inserts ins rb (v # vs) = bindR (ins rb v) (\<lambda>rb'. run_inserts ins rb' vs)"

section \<open>The tree that a store holds\<close>

text \<open>A \<open>shape\<close> is a binary tree of addresses.  \<open>wft h par t\<close> says that the store \<open>h\<close>
  holds \<open>t\<close> below the parent pointer \<open>par\<close>: at every node the child links are the
  roots of the subtrees and the parent link is the node above.\<close>

datatype shape = Leaf | Node shape nat shape

fun rootp :: "shape \<Rightarrow> ptr" where
  "rootp Leaf = None"
| "rootp (Node l a r) = Some a"

fun inorder :: "shape \<Rightarrow> nat list" where
  "inorder Leaf = []"
| "inorder (Node l a r) = inorder l @ a # inorder r"

fun wft :: "(nat \<Rightarrow> 'a node) \<Rightarrow> ptr \<Rightarrow> shape \<Rightarrow> bool" where
  "wft h par Leaf = True"
| "wft h par (Node l a r) =
     (parent (h a) = par \<and> left (h a) = rootp l \<and> right (h a) = rootp r \<and>
      wft h (Some a) l \<and> wft h (Some a) r)"

definition is_tree :: "'a RBTree \<Rightarrow> shape \<Rightarrow> bool" where
  "is_tree rb t =
     (root rb = rootp t \<and> wft (heap rb) None t \<and> distinct (inorder t) \<and>
      list_all (\<lambda>a. a < nxt rb) (inorder t))"

definition vals :: "'a RBTree \<Rightarrow> shape \<Rightarrow> 'a list" where
  "vals rb t = map (\<lambda>a. val (heap rb a)) (inorder t)"

text \<open>The red-black invariants on the tree a store holds: \<open>invc\<close> is invariant 4 (a red
  node has no red child), \<open>invh\<close> is invariant 5 (both subtrees of every node have the
  same black height, hence every path from a node to an absent position passes through
  the same number of black nodes).\<close>

fun bheight :: "(nat \<Rightarrow> 'a node) \<Rightarrow> shape \<Rightarrow> nat" where
  "bheight h Leaf = 0"
| "bheight h (Node l a r) = (if clr (h a) = black then Suc (bheight h l) else bheight h l)"

fun invh :: "(nat \<Rightarrow> 'a node) \<Rightarrow> shape \<Rightarrow> bool" where
  "invh h Leaf = True"
| "invh h (Node l a r) = (bheight h l = bheight h r \<and> invh h l \<and> invh h r)"

fun shape_color :: "(nat \<Rightarrow> 'a node) \<Rightarrow> shape \<Rightarrow> color" where
  "shape_color h Leaf = black"
| "shape_color h (Node l a r) = clr (h a)"

fun invc :: "(nat \<Rightarrow> 'a node) \<Rightarrow> shape \<Rightarrow> bool" where
  "invc h Leaf = True"
| "invc h (Node l a r) =
     ((clr (h a) = red \<longrightarrow> shape_color h l = black \<and> shape_color h r = black) \<and>
      invc h l \<and> invc h r)"

definition rb_inv :: "'a RBTree \<Rightarrow> shape \<Rightarrow> bool" where
  "rb_inv rb t =
     (is_tree rb t \<and> color rb (root rb) = black \<and> invc (heap rb) t \<and> invh (heap rb) t)"

text \<open>The tree reached from the empty tree by a sequence of public operations (the empty
  tree again when the sequence panics).\<close>

definition tree_of_ops :: "('a::{linorder,zero}) op list \<Rightarrow> 'a RBTree" where
  "tree_of_ops ops = (case run_ops NewRBTree ops of Some (Inr rb) \<Rightarrow> rb | _ \<Rightarrow> NewRBTree)"

section \<open>Basic facts\<close>

lemmas setters = set_left_def set_right_def set_parent_def set_clr_def

lemma wft_unique:
  "wft h par t \<Longrightarrow> wft h par' t' \<Longrightarrow> rootp t = rootp t' \<Longrightarrow> t = t'"
proof (induction t arbitrary: t' par par')
  case Leaf
  then show ?case by (cases t') auto
next
  case (Node l a r)
  from Node.prems obtain l' r' where t': "t' = Node l' a r'"
    by (cases t') auto
  with Node.prems have "rootp l = rootp l'" "rootp r = rootp r'"
    "wft h (Some a) l" "wft h (Some a) l'" "wft h (Some a) r" "wft h (Some a) r'"
    by auto
  with Node.IH t' show ?case by blast
qed

lemma is_tree_unique: "is_tree rb t \<Longrightarrow> is_tree rb t' \<Longrightarrow> t = t'"
  unfolding is_tree_def by (metis wft_unique)

section \<open>Delete of a value that is absent\<close>

text \<open>C8: when \<^verbatim>\<open>Exists(v)\<close> returns false, \<^verbatim>\<open>Delete(v)\<close> returns the NotFound error
  \<^verbatim>\<open>ErrValueDoesNotExist\<close> and the tree is the one before the call; so \<^verbatim>\<open>Len()\<close> and
  \<^verbatim>\<open>GetValues()\<close> are the same before and after.\<close>

theorem Delete_absent:
  "Exists rb v = Some False \<Longrightarrow>
   \<exists>rb'. Delete rb v = Some (Inr (Some ErrValueDoesNotExist, rb')) \<and> rb' = rb \<and>
         Len rb' = Len rb \<and> GetValues rb' = GetValues rb"
  by (auto simp: Exists_def Delete_def split: option.splits)

theorem Delete_absent_witness:
  "Exists (tree_of_ops [OpInsert 1, OpInsert 2, OpInsert 3, OpInsert (4::int)]) 7 = Some False \<and>
   Delete (tree_of_ops [OpInsert 1, OpInsert 2, OpInsert 3, OpInsert (4::int)]) 7 =
     Some (Inr (Some ErrValueDoesNotExist,
                tree_of_ops [OpInsert 1, OpInsert 2, OpInsert 3, OpInsert 4]))"
proof -
  have h: "Exists (tree_of_ops [OpInsert 1, OpInsert 2, OpInsert 3, OpInsert (4::int)]) 7 = Some False"
    by code_simp
  from Delete_absent [OF h] h show ?thesis by simp
qed

section \<open>Delete of a value that is present\<close>

text \<open>C1: \<^verbatim>\<open>Delete\<close> of a present value does not always run to completion.  After
  inserting 1, 2, 3, 4 the tree is a valid red-black tree in which 1 is a black node
  without children; \<^verbatim>\<open>Delete(1)\<close> hands the absent node to \<^verbatim>\<open>fixDelete\<close>, whose loop
  is entered and dereferences it in \<^verbatim>\<open>nd.parent\<close>: a nil-pointer panic.\<close>

theorem Delete_black_leaf_panics:
  "rb_inv (tree_of_ops [OpInsert 1, OpInsert 2, OpInsert 3, OpInsert (4::int)])
     (Node (Node Leaf 0 Leaf) 1 (Node Leaf 2 (Node Leaf 3 Leaf))) \<and>
   Exists (tree_of_ops [OpInsert 1, OpInsert 2, OpInsert 3, OpInsert (4::int)]) 1 = Some True \<and>
   Delete (tree_of_ops [OpInsert 1, OpInsert 2, OpInsert 3, OpInsert (4::int)]) 1 =
     Some (Inl (NilDeref ''nd''))"
proof -
  have "rb_inv (tree_of_ops [OpInsert 1, OpInsert 2, OpInsert 3, OpInsert (4::int)])
          (Node (Node Leaf 0 Leaf) 1 (Node Leaf 2 (Node Leaf 3 Leaf))) \<and>
        Exists (tree_of_ops [OpInsert 1, OpInsert 2, OpInsert 3, OpInsert (4::int)]) 1 = Some True \<and>
        (case Delete (tree_of_ops [OpInsert 1, OpInsert 2, OpInsert 3, OpInsert (4::int)]) 1 of
           Some (Inl e) \<Rightarrow> e = NilDeref ''nd'' | _ \<Rightarrow> False)"
    by code_simp
  then show ?thesis by (auto split: option.splits sum.splits)
qed

text \<open>C3: \<^verbatim>\<open>Delete\<close> of a present value does not always return success.  On the tree
  that holds the single value 5, \<^verbatim>\<open>Exists(5)\<close> is true and \<^verbatim>\<open>Delete(5)\<close> empties the
  tree, then panics in the terminal step \<^verbatim>\<open>rb.root.clr = black\<close> of \<^verbatim>\<open>fixDelete\<close>.\<close>

theorem Delete_only_value_panics:
  "rb_inv (tree_of_ops [OpInsert (5::int)]) (Node Leaf 0 Leaf) \<and>
   Exists (tree_of_ops [OpInsert (5::int)]) 5 = Some True \<and>
   Delete (tree_of_ops [OpInsert (5::int)]) 5 = Some (Inl (NilDeref ''rb.root''))"
proof -
  have "rb_inv (tree_of_ops [OpInsert (5::int)]) (Node Leaf 0 Leaf) \<and>
        Exists (tree_of_ops [OpInsert (5::int)]) 5 = Some True \<and>
        (case Delete (tree_of_ops [OpInsert (5::int)]) 5 of
           Some (Inl e) \<Rightarrow> e = NilDeref ''rb.root'' | _ \<Rightarrow> False)"
    by code_simp
  then show ?thesis by (auto split: option.splits sum.splits)
qed

text \<open>C2: the invariants do not hold after every completed operation.  After inserting
  1, 2, 3, 4 the tree is valid; \<^verbatim>\<open>Delete(3)\<close> removes a black node with one red child,
  \<^verbatim>\<open>fixDelete\<close> skips its loop and blackens the root instead of the promoted child, and
  the call returns success with a tree that is no red-black tree: the left subtree of
  the root has black height 1 and the right one 0.\<close>

theorem Delete_breaks_black_height:
  "rb_inv (tree_of_ops [OpInsert 1, OpInsert 2, OpInsert 3, OpInsert (4::int)])
     (Node (Node Leaf 0 Leaf) 1 (Node Leaf 2 (Node Leaf 3 Leaf))) \<and>
   (\<exists>rb'. Delete (tree_of_ops [OpInsert 1, OpInsert 2, OpInsert 3, OpInsert (4::int)]) 3 =
            Some (Inr (None, rb')) \<and>
          is_tree rb' (Node (Node Leaf 0 Leaf) 1 (Node Leaf 3 Leaf)) \<and>
          \<not> (\<exists>t. rb_inv rb' t))"
proof -
  have "rb_inv (tree_of_ops [OpInsert 1, OpInsert 2, OpInsert 3, OpInsert (4::int)])
          (Node (Node Leaf 0 Leaf) 1 (Node Leaf 2 (Node Leaf 3 Leaf))) \<and>
        (case Delete (tree_of_ops [OpInsert 1, OpInsert 2, OpInsert 3, OpInsert (4::int)]) 3 of
           Some (Inr (e, rb')) \<Rightarrow>
             e = None \<and> is_tree rb' (Node (Node Leaf 0 Leaf) 1 (Node Leaf 3 Leaf)) \<and>
             \<not> invh (heap rb') (Node (Node Leaf 0 Leaf) 1 (Node Leaf 3 Leaf))
         | _ \<Rightarrow> False)"
    by code_simp
  then obtain rb' where
    v: "rb_inv (tree_of_ops [OpInsert 1, OpInsert 2, OpInsert 3, OpInsert (4::int)])
          (Node (Node Leaf 0 Leaf) 1 (Node Leaf 2 (Node Leaf 3 Leaf)))" and
    d: "Delete (tree_of_ops [OpInsert 1, OpInsert 2, OpInsert 3, OpInsert (4::int)]) 3 =
          Some (Inr (None, rb'))" and
    t: "is_tree rb' (Node (Node Leaf 0 Leaf) 1 (Node Leaf 3 Leaf))" and
    h: "\<not> invh (heap rb') (Node (Node Leaf 0 Leaf) 1 (Node Leaf 3 Leaf))"
    by (auto split: option.splits sum.splits prod.splits)
  have "\<not> (\<exists>t. rb_inv rb' t)"
  proof
    assume "\<exists>t. rb_inv rb' t"
    then obtain t' where r: "rb_inv rb' t'" ..
    then have "is_tree rb' t'" by (simp add: rb_inv_def)
    with t have "t' = Node (Node Leaf 0 Leaf) 1 (Node Leaf 3 Leaf)"
      by (rule is_tree_unique [symmetric])
    with r h show False by (simp add: rb_inv_def)
  qed
  with v d t show ?thesis by blast
qed

section \<open>Zippers: a subtree in its context\<close>

datatype frame = LeftOf nat shape | RightOf shape nat

fun faddr :: "frame \<Rightarrow> nat" where
  "faddr (LeftOf a r) = a"
| "faddr (RightOf l a) = a"

fun cparent :: "frame list \<Rightarrow> ptr" where
  "cparent [] = None"
| "cparent (f # c) = Some (faddr f)"

fun plug :: "shape \<Rightarrow> frame list \<Rightarrow> shape" where
  "plug t [] = t"
| "plug t (LeftOf a r # c) = plug (Node t a r) c"
| "plug t (RightOf l a # c) = plug (Node l a t) c"

fun croot :: "ptr \<Rightarrow> frame list \<Rightarrow> ptr" where
  "croot p [] = p"
| "croot p (f # c) = croot (Some (faddr f)) c"

fun wfc :: "(nat \<Rightarrow> 'a node) \<Rightarrow> ptr \<Rightarrow> frame list \<Rightarrow> bool" where
  "wfc h p [] = True"
| "wfc h p (LeftOf a r # c) =
     (left (h a) = p \<and> right (h a) = rootp r \<and> parent (h a) = cparent c \<and>
      wft h (Some a) r \<and> wfc h (Some a) c)"
| "wfc h p (RightOf l a # c) =
     (right (h a) = p \<and> left (h a) = rootp l \<and> parent (h a) = cparent c \<and>
      wft h (Some a) l \<and> wfc h (Some a) c)"

fun caddrs :: "frame list \<Rightarrow> nat list" where
  "caddrs [] = []"
| "caddrs (LeftOf a r # c) = a # inorder r @ caddrs c"
| "caddrs (RightOf l a # c) = a # inorder l @ caddrs c"

fun cleft :: "frame list \<Rightarrow> nat list" where
  "cleft [] = []"
| "cleft (LeftOf a r # c) = cleft c"
| "cleft (RightOf l a # c) = cleft c @ inorder l @ [a]"

fun cright :: "frame list \<Rightarrow> nat list" where
  "cright [] = []"
| "cright (LeftOf a r # c) = a # inorder r @ cright c"
| "cright (RightOf l a # c) = cright c"

definition zt :: "'a RBTree \<Rightarrow> shape \<Rightarrow> frame list \<Rightarrow> bool" where
  "zt rb t c =
     (root rb = croot (rootp t) c \<and> wft (heap rb) (cparent c) t \<and> wfc (heap rb) (rootp t) c \<and>
      distinct (inorder t @ caddrs c) \<and> list_all (\<lambda>a. a < nxt rb) (inorder t @ caddrs c))"

lemma rootp_plug: "rootp (plug t c) = croot (rootp t) c"
  by (induction t c rule: plug.induct) auto

lemma wft_plug: "wft h None (plug t c) = (wft h (cparent c) t \<and> wfc h (rootp t) c)"
  by (induction t c rule: plug.induct) auto

lemma inorder_plug: "inorder (plug t c) = cleft c @ inorder t @ cright c"
  by (induction t c rule: plug.induct) auto

lemma mset_caddrs: "mset (caddrs c) = mset (cleft c) + mset (cright c)"
  by (induction c rule: caddrs.induct) auto

lemma mset_inorder_plug: "mset (inorder (plug t c)) = mset (inorder t @ caddrs c)"
  by (simp add: inorder_plug mset_caddrs)

lemma is_tree_plug: "is_tree rb (plug t c) = zt rb t c"
proof -
  have "distinct (inorder (plug t c)) = distinct (inorder t @ caddrs c)"
    using mset_inorder_plug by (metis mset_eq_imp_distinct_iff)
  moreover have "set (inorder (plug t c)) = set (inorder t @ caddrs c)"
    using mset_inorder_plug by (metis mset_eq_setD)
  ultimately show ?thesis
    by (simp add: is_tree_def zt_def rootp_plug wft_plug list_all_iff del: set_append)
qed

lemma in_tree_plug: "a \<in> set (inorder t) \<Longrightarrow> \<exists>l r c. t = plug (Node l a r) c"
proof (induction t)
  case Leaf
  then show ?case by simp
next
  case (Node l x r)
  consider "a = x" | "a \<in> set (inorder l)" | "a \<in> set (inorder r)"
    using Node.prems by auto
  then show ?case
  proof cases
    case 1
    then show ?thesis by (metis plug.simps(1))
  next
    case 2
    with Node.IH obtain l' r' c where "l = plug (Node l' a r') c" by blast
    then have "Node l x r = plug (Node l' a r') (c @ [LeftOf x r])"
      by (induction "Node l' a r'" c arbitrary: l' a r' l rule: plug.induct) auto
    then show ?thesis by blast
  next
    case 3
    with Node.IH obtain l' r' c where "r = plug (Node l' a r') c" by blast
    then have "Node l x r = plug (Node l' a r') (c @ [RightOf l x])"
      by (induction "Node l' a r'" c arbitrary: l' a r' r rule: plug.induct) auto
    then show ?thesis by blast
  qed
qed

lemma wft_upd [simp]: "a \<notin> set (inorder t) \<Longrightarrow> wft (h(a := x)) par t = wft h par t"
  by (induction t arbitrary: par) auto

lemma wfc_upd [simp]: "a \<notin> set (caddrs c) \<Longrightarrow> wfc (h(a := x)) p c = wfc h p c"
  by (induction h p c rule: wfc.induct) auto

lemma heap_setters:
  "heap (set_left rb a p) = (heap rb)(a := (heap rb a)\<lparr>left := p\<rparr>)"
  "heap (set_right rb a p) = (heap rb)(a := (heap rb a)\<lparr>right := p\<rparr>)"
  "heap (set_parent rb a p) = (heap rb)(a := (heap rb a)\<lparr>parent := p\<rparr>)"
  "heap (set_clr rb a k) = (heap rb)(a := (heap rb a)\<lparr>clr := k\<rparr>)"
  by (simp_all add: setters)

lemma root_setters [simp]:
  "root (set_left rb a p) = root rb" "root (set_right rb a p) = root rb"
  "root (set_parent rb a p) = root rb" "root (set_clr rb a k) = root rb"
  "nxt (set_left rb a p) = nxt rb" "nxt (set_right rb a p) = nxt rb"
  "nxt (set_parent rb a p) = nxt rb" "nxt (set_clr rb a k) = nxt rb"
  "len (set_left rb a p) = len rb" "len (set_right rb a p) = len rb"
  "len (set_parent rb a p) = len rb" "len (set_clr rb a k) = len rb"
  by (simp_all add: setters)

lemma set_clr_fields [simp]:
  "left (heap (set_clr rb a k) b) = left (heap rb b)"
  "right (heap (set_clr rb a k) b) = right (heap rb b)"
  "parent (heap (set_clr rb a k) b) = parent (heap rb b)"
  "val (heap (set_clr rb a k) b) = val (heap rb b)"
  "clr (heap (set_clr rb a k) b) = (if b = a then k else clr (heap rb b))"
  by (simp_all add: setters)

section \<open>The rotations on a tree in its context\<close>

lemma rootp_in: "rootp t = Some a \<Longrightarrow> a \<in> set (inorder t)"
  by (cases t) auto

lemma rootp_notin [simp]: "a \<notin> set (inorder t) \<Longrightarrow> rootp t \<noteq> Some a" "a \<notin> set (inorder t) \<Longrightarrow> Some a \<noteq> rootp t"
  using rootp_in by fastforce+

lemma rotateLeft_zt:
  assumes "zt rb (Node l n (Node rl r rr)) c"
  shows "zt (rotateLeft rb (Some n)) (Node (Node l n rl) r rr) c"
proof (cases c)
  case Nil
  with assms show ?thesis
    by (cases rl) (auto simp: zt_def rotateLeft_def replace_def Let_def heap_setters)
next
  case (Cons f c')
  with assms show ?thesis
    by (cases f; cases rl) (auto simp: zt_def rotateLeft_def replace_def Let_def heap_setters)
qed

lemma rotateRight_zt:
  assumes "zt rb (Node (Node ll l lr) n r) c"
  shows "zt (rotateRight rb (Some n)) (Node ll l (Node lr n r)) c"
proof (cases c)
  case Nil
  with assms show ?thesis
    by (cases lr) (auto simp: zt_def rotateRight_def replace_def Let_def heap_setters)
next
  case (Cons f c')
  with assms show ?thesis
    by (cases f; cases lr) (auto simp: zt_def rotateRight_def replace_def Let_def heap_setters)
qed

section \<open>Rules for loops\<close>

lemma whileE_total:
  assumes "I s (n::nat)"
    and step: "\<And>s n. I s n \<Longrightarrow> c s \<Longrightarrow> \<exists>s' m. b s = Some (Inr s') \<and> I s' m \<and> m < n"
  shows "\<exists>s' m. whileE c b s = Some (Inr s') \<and> I s' m \<and> \<not> c s'"
  using assms(1)
proof (induction n arbitrary: s rule: less_induct)
  case (less n)
  show ?case
  proof (cases "c s")
    case False
    with less.prems show ?thesis by (subst whileE.simps) auto
  next
    case True
    from step [OF less.prems True] obtain s' m where
      b: "b s = Some (Inr s')" and i: "I s' m" and m: "m < (n::nat)" by blast
    from less.IH [OF m i] obtain s'' k where
      "whileE c b s' = Some (Inr s'') \<and> I s'' k \<and> \<not> c s''" by blast
    with True b show ?thesis by (subst whileE.simps) auto
  qed
qed

lemma whileE_eq:
  assumes "I s (n::nat)"
    and step: "\<And>s n. I s n \<Longrightarrow> c s \<Longrightarrow> b' s = b s \<and> (\<exists>s' m. b s = Some (Inr s') \<and> I s' m \<and> m < n)"
  shows "whileE c b' s = whileE c b s"
  using assms(1)
proof (induction n arbitrary: s rule: less_induct)
  case (less n)
  show ?case
  proof (cases "c s")
    case False
    then show ?thesis by (simp add: whileE.simps)
  next
    case True
    from step [OF less.prems True] obtain s' m where
      e: "b' s = b s" and b: "b s = Some (Inr s')" and i: "I s' m" and m: "m < (n::nat)" by blast
    from less.IH [OF m i] have "whileE c b' s' = whileE c b s'" .
    moreover have "whileE c b' s = whileE c b' s'"
      using True b e by (subst whileE.simps) simp
    moreover have "whileE c b s = whileE c b s'"
      using True b by (subst whileE.simps) simp
    ultimately show ?thesis by simp
  qed
qed

lemma whileE_partial_aux:
  assumes "whileE c b s = Some r"
  shows "(\<forall>s s'. I s \<and> c s \<and> b s = Some (Inr s') \<longrightarrow> I s') \<longrightarrow>
         I s \<longrightarrow> (case r of Inl e \<Rightarrow> True | Inr s' \<Rightarrow> I s' \<and> \<not> c s')"
proof (rule whileE.raw_induct [where P = "\<lambda>c b s r.
         (\<forall>s s'. I s \<and> c s \<and> b s = Some (Inr s') \<longrightarrow> I s') \<longrightarrow>
         I s \<longrightarrow> (case r of Inl e \<Rightarrow> True | Inr s' \<Rightarrow> I s' \<and> \<not> c s')", OF _ assms])
  fix w :: "('a \<Rightarrow> bool) \<Rightarrow> ('a \<Rightarrow> 'a res) \<Rightarrow> 'a \<Rightarrow> 'a res" and c b s r
  assume ih: "\<And>c b s r. w c b s = Some r \<Longrightarrow>
         (\<forall>s s'. I s \<and> c s \<and> b s = Some (Inr s') \<longrightarrow> I s') \<longrightarrow>
         I s \<longrightarrow> (case r of Inl e \<Rightarrow> True | Inr s' \<Rightarrow> I s' \<and> \<not> c s')"
    and eq: "(if c s then case b s of None \<Rightarrow> None | Some (Inl e) \<Rightarrow> Some (Inl e)
                 | Some (Inr s') \<Rightarrow> w c b s' else Some (Inr s)) = Some r"
  show "(\<forall>s s'. I s \<and> c s \<and> b s = Some (Inr s') \<longrightarrow> I s') \<longrightarrow>
         I s \<longrightarrow> (case r of Inl e \<Rightarrow> True | Inr s' \<Rightarrow> I s' \<and> \<not> c s')"
  proof (intro impI)
    assume st: "\<forall>s s'. I s \<and> c s \<and> b s = Some (Inr s') \<longrightarrow> I s'" and i: "I s"
    show "case r of Inl e \<Rightarrow> True | Inr s' \<Rightarrow> I s' \<and> \<not> c s'"
    proof (cases "c s")
      case False
      with eq i show ?thesis by auto
    next
      case True
      show ?thesis
      proof (cases "b s")
        case None
        with True eq show ?thesis by simp
      next
        case (Some x)
        show ?thesis
        proof (cases x)
          case (Inl e)
          with True Some eq show ?thesis by auto
        next
          case (Inr s')
          with True Some eq have w: "w c b s' = Some r" by simp
          from st i True Some Inr have "I s'" by blast
          with ih [OF w] st show ?thesis by simp
        qed
      qed
    qed
  qed
qed

lemma whileE_partial:
  assumes "whileE c b s = Some (Inr s')" and "I s"
    and step: "\<And>s s'. I s \<Longrightarrow> c s \<Longrightarrow> b s = Some (Inr s') \<Longrightarrow> I s'"
  shows "I s' \<and> \<not> c s'"
proof -
  have "\<forall>s s'. I s \<and> c s \<and> b s = Some (Inr s') \<longrightarrow> I s'"
    using step by blast
  with whileE_partial_aux [OF assms(1), of I] assms(2) show ?thesis by simp
qed

section \<open>Frames and the cases of the loop body of fixInsert\<close>

lemma zt_up_L: "zt rb t (LeftOf a r # c) = zt rb (Node t a r) c"
  by (auto simp: zt_def)

lemma zt_up_R: "zt rb t (RightOf l a # c) = zt rb (Node l a t) c"
  by (auto simp: zt_def)

lemma wft_links:
  "(\<forall>x \<in> set (inorder t). left (h' x) = left (h x) \<and> right (h' x) = right (h x) \<and>
       parent (h' x) = parent (h x)) \<Longrightarrow> wft h' par t = wft h par t"
  by (induction t arbitrary: par) auto

lemma wfc_links:
  "(\<forall>x \<in> set (caddrs c). left (h' x) = left (h x) \<and> right (h' x) = right (h x) \<and>
       parent (h' x) = parent (h x)) \<Longrightarrow> wfc h' p c = wfc h p c"
proof (induction c arbitrary: p)
  case Nil
  then show ?case by simp
next
  case (Cons f c)
  then have ih: "wfc h' q c = wfc h q c" for q by (cases f) auto
  show ?case
  proof (cases f)
    case (LeftOf a r)
    have "wft h' (Some a) r = wft h (Some a) r"
      by (rule wft_links) (use Cons.prems LeftOf in auto)
    with Cons.prems LeftOf ih show ?thesis by simp
  next
    case (RightOf l a)
    have "wft h' (Some a) l = wft h (Some a) l"
      by (rule wft_links) (use Cons.prems RightOf in auto)
    with Cons.prems RightOf ih show ?thesis by simp
  qed
qed

lemma wft_clr [simp]: "wft (h(a := (h a)\<lparr>clr := k\<rparr>)) par t = wft h par t"
  by (rule wft_links) simp

lemma wfc_clr [simp]: "wfc (h(a := (h a)\<lparr>clr := k\<rparr>)) p c = wfc h p c"
  by (rule wfc_links) simp

lemma zt_set_clr [simp]: "zt (set_clr rb a k) t c = zt rb t c"
  by (simp add: zt_def heap_setters)

lemma zt_focus:
  assumes "zt rb (Node l n r) c"
  shows "parent (heap rb n) = cparent c" "left (heap rb n) = rootp l" "right (heap rb n) = rootp r"
    "n \<notin> set (inorder l)" "n \<notin> set (inorder r)" "n \<notin> set (caddrs c)"
  using assms by (auto simp: zt_def)

lemma zt_root_Nil: "zt rb t [] \<Longrightarrow> root rb = rootp t"
  by (simp add: zt_def)

lemma croot_Cons: "c \<noteq> [] \<Longrightarrow> croot p c = croot q c"
  by (cases c) auto

lemma croot_in: "c \<noteq> [] \<Longrightarrow> \<exists>a \<in> set (caddrs c). croot p c = Some a"
proof (induction c arbitrary: p)
  case Nil
  then show ?case by simp
next
  case (Cons f c)
  show ?case
  proof (cases c)
    case Nil
    then show ?thesis by (cases f) auto
  next
    case (Cons f' c')
    with Cons.IH [of "Some (faddr f)"] show ?thesis by (cases f) auto
  qed
qed

lemma color_set_clr [simp]:
  "color (set_clr rb a k) p = (if p = Some a then k else color rb p)"
  by (auto simp: color_def setters split: option.splits)

lemma rotateLeft_fields [simp]:
  "clr (heap (rotateLeft rb nd) a) = clr (heap rb a)"
  "val (heap (rotateLeft rb nd) a) = val (heap rb a)"
  "len (rotateLeft rb nd) = len rb" "nxt (rotateLeft rb nd) = nxt rb"
  by (simp_all add: rotateLeft_def replace_def setters Let_def split: option.splits)

lemma rotateRight_fields [simp]:
  "clr (heap (rotateRight rb nd) a) = clr (heap rb a)"
  "val (heap (rotateRight rb nd) a) = val (heap rb a)"
  "len (rotateRight rb nd) = len rb" "nxt (rotateRight rb nd) = nxt rb"
  by (simp_all add: rotateRight_def replace_def setters Let_def split: option.splits)

lemma color_rotate [simp]:
  "color (rotateLeft rb nd) p = color rb p" "color (rotateRight rb nd) p = color rb p"
  by (simp_all add: color_def split: option.splits)

text \<open>The loop body of fixInsert, evaluated case by case on the links it reads.\<close>

lemma body_recolor_L:
  assumes "parent (heap rb nd) = Some p" "parent (heap rb p) = Some g"
    "left (heap rb g) = Some p" "right (heap rb g) = Some u" "clr (heap rb u) = red"
  shows "fixInsert_body_with rl rr (rb, nd) =
           Inr (set_clr (set_clr (set_clr rb u black) p black) g red, g)"
  using assms by (simp add: fixInsert_body_with_def bindE_def deref_def color_def Let_def)

lemma body_recolor_R:
  assumes "parent (heap rb nd) = Some p" "parent (heap rb p) = Some g"
    "left (heap rb g) = Some u" "u \<noteq> p" "clr (heap rb u) = red"
  shows "fixInsert_body_with rl rr (rb, nd) =
           Inr (set_clr (set_clr (set_clr rb u black) p black) g red, g)"
  using assms by (simp add: fixInsert_body_with_def bindE_def deref_def color_def Let_def)

lemma body_rot_LL:
  assumes "parent (heap rb nd) = Some p" "parent (heap rb p) = Some g"
    "left (heap rb g) = Some p" "color rb (right (heap rb g)) \<noteq> red"
    "right (heap rb p) \<noteq> Some nd" "p \<noteq> g"
  shows "fixInsert_body_with rl rr (rb, nd) =
           Inr (rr (set_clr (set_clr rb p black) g red) (Some g), nd)"
  using assms by (simp add: fixInsert_body_with_def bindE_def deref_def Let_def)

lemma body_rot_RR:
  assumes "parent (heap rb nd) = Some p" "parent (heap rb p) = Some g"
    "left (heap rb g) \<noteq> Some p" "color rb (left (heap rb g)) \<noteq> red"
    "left (heap rb p) \<noteq> Some nd" "p \<noteq> g"
  shows "fixInsert_body_with rl rr (rb, nd) =
           Inr (rl (set_clr (set_clr rb p black) g red) (Some g), nd)"
  using assms by (simp add: fixInsert_body_with_def bindE_def deref_def Let_def)

section \<open>The rotations of part_000 on a well-formed tree\<close>

lemma rotateLeft_part0_eq:
  assumes "zt rb (Node l n (Node rl r rr)) c" "c = [] \<Longrightarrow> clr (heap rb r) = black"
  shows "rotateLeft_part0 rb (Some n) = rotateLeft rb (Some n)"
proof (cases c)
  case Nil
  with assms show ?thesis
    by (cases rl)
       (auto simp: zt_def rotateLeft_part0_def rotateLeft_def replace_def Let_def setters
             intro!: RBTree.equality ext)
next
  case (Cons f c')
  with assms(1) show ?thesis
    by (cases f; cases rl)
       (auto simp: zt_def rotateLeft_part0_def rotateLeft_def replace_def Let_def setters
             intro!: RBTree.equality ext)
qed

lemma rotateRight_part0_eq:
  assumes "zt rb (Node (Node ll l lr) n r) c" "c = [] \<Longrightarrow> clr (heap rb l) = black"
  shows "rotateRight_part0 rb (Some n) = rotateRight rb (Some n)"
proof (cases c)
  case Nil
  with assms show ?thesis
    by (cases lr)
       (auto simp: zt_def rotateRight_part0_def rotateRight_def replace_def Let_def setters
             intro!: RBTree.equality ext)
next
  case (Cons f c')
  with assms(1) show ?thesis
    by (cases f; cases lr)
       (auto simp: zt_def rotateRight_part0_def rotateRight_def replace_def Let_def setters
             intro!: RBTree.equality ext)
qed

section \<open>One iteration of fixInsert\<close>

lemma body_rot_LR:
  assumes "parent (heap rb nd) = Some p" "parent (heap rb p) = Some g"
    "left (heap rb g) = Some p" "color rb (right (heap rb g)) \<noteq> red"
    "right (heap rb p) = Some nd"
    "parent (heap (rl rb (Some p)) p) = Some nd" "parent (heap (rl rb (Some p)) nd) = Some g"
  shows "fixInsert_body_with rl rr (rb, nd) =
           Inr (rr (set_clr (set_clr (rl rb (Some p)) nd black) g red) (Some g), p)"
  using assms by (simp add: fixInsert_body_with_def bindE_def deref_def Let_def)

lemma body_rot_RL:
  assumes "parent (heap rb nd) = Some p" "parent (heap rb p) = Some g"
    "left (heap rb g) \<noteq> Some p" "color rb (left (heap rb g)) \<noteq> red"
    "left (heap rb p) = Some nd"
    "parent (heap (rr rb (Some p)) p) = Some nd" "parent (heap (rr rb (Some p)) nd) = Some g"
  shows "fixInsert_body_with rl rr (rb, nd) =
           Inr (rl (set_clr (set_clr (rr rb (Some p)) nd black) g red) (Some g), p)"
  using assms by (simp add: fixInsert_body_with_def bindE_def deref_def Let_def)

lemma zt_root_in: "zt rb t c \<Longrightarrow> c \<noteq> [] \<Longrightarrow> \<exists>a \<in> set (caddrs c). root rb = Some a"
  using croot_in [of c "rootp t"] by (auto simp: zt_def)

lemma zt_root_eq: "zt rb t c \<Longrightarrow> zt rb' t' c \<Longrightarrow> c \<noteq> [] \<Longrightarrow> root rb' = root rb"
  using croot_Cons [of c "rootp t" "rootp t'"] by (simp add: zt_def)

lemma zt_distinct: "zt rb t c \<Longrightarrow> distinct (inorder t @ caddrs c)"
  by (simp add: zt_def)

lemma root_black_frame:
  assumes "zt rb t c" "zt rb' t' c" "c \<noteq> []" "color rb (root rb) = black"
    "\<forall>a \<in> set (caddrs c). clr (heap rb' a) = clr (heap rb a)"
  shows "color rb' (root rb') = black"
proof -
  from zt_root_in [OF assms(1,3)] obtain a where a: "a \<in> set (caddrs c)" "root rb = Some a"
    by blast
  moreover from zt_root_eq [OF assms(1,2,3)] have "root rb' = root rb" .
  ultimately show ?thesis using assms(4,5) by (simp add: color_def)
qed

definition FIinv ::
  "nat list \<Rightarrow> 'a RBTree \<Rightarrow> 'a RBTree \<Rightarrow> shape \<Rightarrow> frame list \<Rightarrow> bool" where
  "FIinv xs rb0 rb t c =
     (zt rb t c \<and> (c = [] \<or> color rb (root rb) = black) \<and> inorder (plug t c) = xs \<and>
      (\<forall>a. val (heap rb a) = val (heap rb0 a)) \<and> len rb = len rb0 \<and> nxt rb = nxt rb0)"

lemma color_rootp_red: "color rb (rootp u) = red \<Longrightarrow> \<exists>ul x ur. u = Node ul x ur \<and> clr (heap rb x) = red"
  by (cases u) (auto simp: color_def)

lemma FI_step_L:
  assumes inv: "FIinv xs rb0 rb (Node l nd r) (f # LeftOf g u # c2)"
    and cond: "color rb (parent (heap rb nd)) = red"
  shows "\<exists>rb' nd' l' r' c'.
           fixInsert_body_with rotateLeft rotateRight (rb, nd) = Inr (rb', nd') \<and>
           fixInsert_body_with rotateLeft_part0 rotateRight_part0 (rb, nd) = Inr (rb', nd') \<and>
           FIinv xs rb0 rb' (Node l' nd' r') c' \<and> length c' < length (f # LeftOf g u # c2)"
proof -
  let ?c = "f # LeftOf g u # c2"
  from inv have z: "zt rb (Node l nd r) ?c" and rootb: "color rb (root rb) = black"
    and io: "inorder (plug (Node l nd r) ?c) = xs"
    and vs: "\<forall>a. val (heap rb a) = val (heap rb0 a)" "len rb = len rb0" "nxt rb = nxt rb0"
    by (auto simp: FIinv_def)
  obtain p where p: "p = faddr f" by simp
  define tp where "tp = (case f of LeftOf a pr \<Rightarrow> Node (Node l nd r) a pr | RightOf pl a \<Rightarrow> Node pl a (Node l nd r))"
  have zp: "zt rb tp (LeftOf g u # c2)"
    using z by (cases f) (simp_all add: tp_def zt_up_L zt_up_R)
  have rp: "rootp tp = Some p" using p by (cases f) (simp_all add: tp_def)
  have iop: "inorder (plug tp (LeftOf g u # c2)) = xs"
    using io by (cases f) (simp_all add: tp_def)
  have zg: "zt rb (Node tp g u) c2" using zp by (simp add: zt_up_L)
  have ndp: "parent (heap rb nd) = Some p" using zt_focus(1) [OF z] p by simp
  have pg: "parent (heap rb p) = Some g" "left (heap rb g) = Some p" "right (heap rb g) = rootp u"
    "p \<noteq> g" "nd \<noteq> g" "nd \<noteq> p"
    using z p by (cases f; auto simp: zt_def)+
  show ?thesis
  proof (cases "color rb (rootp u) = red")
    case True
    then obtain ul x ur where u: "u = Node ul x ur" "clr (heap rb x) = red"
      using color_rootp_red by blast
    let ?rb' = "set_clr (set_clr (set_clr rb x black) p black) g red"
    have b: "fixInsert_body_with rl rr (rb, nd) = Inr (?rb', g)" for rl rr
      using body_recolor_L [OF ndp pg(1,2) _ u(2)] pg(3) u(1) by simp
    have z': "zt ?rb' (Node tp g u) c2" using zg by simp
    have rb: "color ?rb' (root ?rb') = black" if "c2 \<noteq> []"
    proof (rule root_black_frame [OF zg z' that rootb])
      from zt_distinct [OF zg] u(1) rp have "x \<notin> set (caddrs c2)" "g \<notin> set (caddrs c2)" "p \<notin> set (caddrs c2)"
        using rootp_in [OF rp] by auto
      then show "\<forall>a\<in>set (caddrs c2). clr (heap ?rb' a) = clr (heap rb a)" by auto
    qed
    have "FIinv xs rb0 ?rb' (Node tp g u) c2"
      unfolding FIinv_def using z' iop vs rb by (cases "c2 = []") simp_all
    with b show ?thesis by fastforce
  next
    case False
    with pg(3) have cf: "color rb (right (heap rb g)) \<noteq> red" by simp
    show ?thesis
    proof (cases f)
      case (LeftOf p' pr)
      with p have f: "f = LeftOf p pr" by simp
      then have tp: "tp = Node (Node l nd r) p pr" by (simp add: tp_def)
      have ne: "right (heap rb p) \<noteq> Some nd"
        using z f by (auto simp: zt_def)
      let ?rb3 = "set_clr (set_clr rb p black) g red"
      let ?rb4 = "rotateRight ?rb3 (Some g)"
      have b: "fixInsert_body_with rl rr (rb, nd) = Inr (rr ?rb3 (Some g), nd)" for rl rr
        by (rule body_rot_LL [OF ndp pg(1,2) cf ne pg(4)])
      have z3: "zt ?rb3 (Node (Node (Node l nd r) p pr) g u) c2"
        using zg tp by simp
      have e: "rotateRight_part0 ?rb3 (Some g) = ?rb4"
        by (rule rotateRight_part0_eq [OF z3]) (use pg(4) in simp)
      have z4: "zt ?rb4 (Node (Node l nd r) p (Node pr g u)) c2"
        by (rule rotateRight_zt [OF z3])
      then have z4': "zt ?rb4 (Node l nd r) (LeftOf p (Node pr g u) # c2)"
        by (simp add: zt_up_L)
      have rb: "color ?rb4 (root ?rb4) = black"
      proof (cases "c2 = []")
        case True
        with z4 have "root ?rb4 = Some p" by (simp add: zt_def)
        then show ?thesis using pg(4) by (simp add: color_def)
      next
        case False
        show ?thesis
        proof (rule root_black_frame [OF zg z4 False rootb])
          from zt_distinct [OF zg] tp have "g \<notin> set (caddrs c2)" "p \<notin> set (caddrs c2)"
            by auto
          then show "\<forall>a\<in>set (caddrs c2). clr (heap ?rb4 a) = clr (heap rb a)" by auto
        qed
      qed
      have "inorder (plug (Node l nd r) (LeftOf p (Node pr g u) # c2)) = xs"
        using iop tp by (simp add: inorder_plug)
      with z4' rb vs have "FIinv xs rb0 ?rb4 (Node l nd r) (LeftOf p (Node pr g u) # c2)"
        by (simp add: FIinv_def)
      with b [of rotateLeft rotateRight] b [of rotateLeft_part0 rotateRight_part0] e
      show ?thesis by fastforce
    next
      case (RightOf pl p')
      with p have f: "f = RightOf pl p" by simp
      then have tp: "tp = Node pl p (Node l nd r)" by (simp add: tp_def)
      have eqr: "right (heap rb p) = Some nd"
        using z f by (auto simp: zt_def)
      let ?rb1 = "rotateLeft rb (Some p)"
      let ?rb3 = "set_clr (set_clr ?rb1 nd black) g red"
      let ?rb4 = "rotateRight ?rb3 (Some g)"
      have zp': "zt rb (Node pl p (Node l nd r)) (LeftOf g u # c2)" using zp tp by simp
      have e1: "rotateLeft_part0 rb (Some p) = ?rb1"
        by (rule rotateLeft_part0_eq [OF zp']) simp
      have z1: "zt ?rb1 (Node (Node pl p l) nd r) (LeftOf g u # c2)"
        by (rule rotateLeft_zt [OF zp'])
      then have z1': "zt ?rb1 (Node pl p l) (LeftOf nd r # LeftOf g u # c2)"
        by (simp add: zt_up_L)
      have p1: "parent (heap ?rb1 p) = Some nd" using zt_focus(1) [OF z1'] by simp
      have p2: "parent (heap ?rb1 nd) = Some g" using zt_focus(1) [OF z1] by simp
      have b: "fixInsert_body_with rotateLeft rotateRight (rb, nd) = Inr (?rb4, p)"
        by (rule body_rot_LR [where rl = rotateLeft and rr = rotateRight,
              OF ndp pg(1,2) cf eqr p1 p2])
      have z3: "zt ?rb3 (Node (Node (Node pl p l) nd r) g u) c2"
        using z1 by (simp add: zt_up_L)
      have e: "rotateRight_part0 ?rb3 (Some g) = ?rb4"
        by (rule rotateRight_part0_eq [OF z3]) (use pg(5) in simp)
      have b0: "fixInsert_body_with rotateLeft_part0 rotateRight_part0 (rb, nd) = Inr (?rb4, p)"
        using body_rot_LR [where rl = rotateLeft_part0 and rr = rotateRight_part0,
              OF ndp pg(1,2) cf eqr] p1 p2 e1 e by simp
      have z4: "zt ?rb4 (Node (Node pl p l) nd (Node r g u)) c2"
        by (rule rotateRight_zt [OF z3])
      then have z4': "zt ?rb4 (Node pl p l) (LeftOf nd (Node r g u) # c2)"
        by (simp add: zt_up_L)
      have rb: "color ?rb4 (root ?rb4) = black"
      proof (cases "c2 = []")
        case True
        with z4 have "root ?rb4 = Some nd" by (simp add: zt_def)
        then show ?thesis using pg(5) by (simp add: color_def)
      next
        case False
        show ?thesis
        proof (rule root_black_frame [OF zg z4 False rootb])
          from zt_distinct [OF zg] tp have "g \<notin> set (caddrs c2)" "nd \<notin> set (caddrs c2)"
            by auto
          then show "\<forall>a\<in>set (caddrs c2). clr (heap ?rb4 a) = clr (heap rb a)" by auto
        qed
      qed
      have "inorder (plug (Node pl p l) (LeftOf nd (Node r g u) # c2)) = xs"
        using iop tp by (simp add: inorder_plug)
      with z4' rb vs have "FIinv xs rb0 ?rb4 (Node pl p l) (LeftOf nd (Node r g u) # c2)"
        by (simp add: FIinv_def)
      with b b0 show ?thesis by fastforce
    qed
  qed
qed

lemma FI_step_R:
  assumes inv: "FIinv xs rb0 rb (Node l nd r) (f # RightOf u g # c2)"
    and cond: "color rb (parent (heap rb nd)) = red"
  shows "\<exists>rb' nd' l' r' c'.
           fixInsert_body_with rotateLeft rotateRight (rb, nd) = Inr (rb', nd') \<and>
           fixInsert_body_with rotateLeft_part0 rotateRight_part0 (rb, nd) = Inr (rb', nd') \<and>
           FIinv xs rb0 rb' (Node l' nd' r') c' \<and> length c' < length (f # RightOf u g # c2)"
proof -
  let ?c = "f # RightOf u g # c2"
  from inv have z: "zt rb (Node l nd r) ?c" and rootb: "color rb (root rb) = black"
    and io: "inorder (plug (Node l nd r) ?c) = xs"
    and vs: "\<forall>a. val (heap rb a) = val (heap rb0 a)" "len rb = len rb0" "nxt rb = nxt rb0"
    by (auto simp: FIinv_def)
  obtain p where p: "p = faddr f" by simp
  define tp where "tp = (case f of LeftOf a pr \<Rightarrow> Node (Node l nd r) a pr | RightOf pl a \<Rightarrow> Node pl a (Node l nd r))"
  have zp: "zt rb tp (RightOf u g # c2)"
    using z by (cases f) (simp_all add: tp_def zt_up_L zt_up_R)
  have rp: "rootp tp = Some p" using p by (cases f) (simp_all add: tp_def)
  have iop: "inorder (plug tp (RightOf u g # c2)) = xs"
    using io by (cases f) (simp_all add: tp_def)
  have zg: "zt rb (Node u g tp) c2" using zp by (simp add: zt_up_R)
  have ndp: "parent (heap rb nd) = Some p" using zt_focus(1) [OF z] p by simp
  have pg: "parent (heap rb p) = Some g" "left (heap rb g) \<noteq> Some p" "left (heap rb g) = rootp u"
    "p \<noteq> g" "nd \<noteq> g" "nd \<noteq> p"
    using z p by (cases f; auto simp: zt_def)+
  show ?thesis
  proof (cases "color rb (rootp u) = red")
    case True
    then obtain ul x ur where u: "u = Node ul x ur" "clr (heap rb x) = red"
      using color_rootp_red by blast
    let ?rb' = "set_clr (set_clr (set_clr rb x black) p black) g red"
    have xp: "x \<noteq> p" using pg(2,3) u(1) by auto
    have b: "fixInsert_body_with rl rr (rb, nd) = Inr (?rb', g)" for rl rr
      using body_recolor_R [OF ndp pg(1) _ xp u(2)] pg(3) u(1) by simp
    have z': "zt ?rb' (Node u g tp) c2" using zg by simp
    have rb: "color ?rb' (root ?rb') = black" if "c2 \<noteq> []"
    proof (rule root_black_frame [OF zg z' that rootb])
      from zt_distinct [OF zg] u(1) rp have "x \<notin> set (caddrs c2)" "g \<notin> set (caddrs c2)" "p \<notin> set (caddrs c2)"
        using rootp_in [OF rp] by auto
      then show "\<forall>a\<in>set (caddrs c2). clr (heap ?rb' a) = clr (heap rb a)" by auto
    qed
    have "FIinv xs rb0 ?rb' (Node u g tp) c2"
      unfolding FIinv_def using z' iop vs rb by (cases "c2 = []") simp_all
    with b show ?thesis by fastforce
  next
    case False
    with pg(3) have cf: "color rb (left (heap rb g)) \<noteq> red" by simp
    show ?thesis
    proof (cases f)
      case (RightOf pl p')
      with p have f: "f = RightOf pl p" by simp
      then have tp: "tp = Node pl p (Node l nd r)" by (simp add: tp_def)
      have ne: "left (heap rb p) \<noteq> Some nd"
        using z f by (auto simp: zt_def)
      let ?rb3 = "set_clr (set_clr rb p black) g red"
      let ?rb4 = "rotateLeft ?rb3 (Some g)"
      have b: "fixInsert_body_with rl rr (rb, nd) = Inr (rl ?rb3 (Some g), nd)" for rl rr
        by (rule body_rot_RR [OF ndp pg(1,2) cf ne pg(4)])
      have z3: "zt ?rb3 (Node u g (Node pl p (Node l nd r))) c2"
        using zg tp by simp
      have e: "rotateLeft_part0 ?rb3 (Some g) = ?rb4"
        by (rule rotateLeft_part0_eq [OF z3]) (use pg(4) in simp)
      have z4: "zt ?rb4 (Node (Node u g pl) p (Node l nd r)) c2"
        by (rule rotateLeft_zt [OF z3])
      then have z4': "zt ?rb4 (Node l nd r) (RightOf (Node u g pl) p # c2)"
        by (simp add: zt_up_R)
      have rb: "color ?rb4 (root ?rb4) = black"
      proof (cases "c2 = []")
        case True
        with z4 have "root ?rb4 = Some p" by (simp add: zt_def)
        then show ?thesis using pg(4) by (simp add: color_def)
      next
        case False
        show ?thesis
        proof (rule root_black_frame [OF zg z4 False rootb])
          from zt_distinct [OF zg] tp have "g \<notin> set (caddrs c2)" "p \<notin> set (caddrs c2)"
            by auto
          then show "\<forall>a\<in>set (caddrs c2). clr (heap ?rb4 a) = clr (heap rb a)" by auto
        qed
      qed
      have "inorder (plug (Node l nd r) (RightOf (Node u g pl) p # c2)) = xs"
        using iop tp by (simp add: inorder_plug)
      with z4' rb vs have "FIinv xs rb0 ?rb4 (Node l nd r) (RightOf (Node u g pl) p # c2)"
        by (simp add: FIinv_def)
      with b [of rotateLeft rotateRight] b [of rotateLeft_part0 rotateRight_part0] e
      show ?thesis by fastforce
    next
      case (LeftOf p' pr)
      with p have f: "f = LeftOf p pr" by simp
      then have tp: "tp = Node (Node l nd r) p pr" by (simp add: tp_def)
      have eqr: "left (heap rb p) = Some nd"
        using z f by (auto simp: zt_def)
      let ?rb1 = "rotateRight rb (Some p)"
      let ?rb3 = "set_clr (set_clr ?rb1 nd black) g red"
      let ?rb4 = "rotateLeft ?rb3 (Some g)"
      have zp': "zt rb (Node (Node l nd r) p pr) (RightOf u g # c2)" using zp tp by simp
      have e1: "rotateRight_part0 rb (Some p) = ?rb1"
        by (rule rotateRight_part0_eq [OF zp']) simp
      have z1: "zt ?rb1 (Node l nd (Node r p pr)) (RightOf u g # c2)"
        by (rule rotateRight_zt [OF zp'])
      then have z1': "zt ?rb1 (Node r p pr) (RightOf l nd # RightOf u g # c2)"
        by (simp add: zt_up_R)
      have p1: "parent (heap ?rb1 p) = Some nd" using zt_focus(1) [OF z1'] by simp
      have p2: "parent (heap ?rb1 nd) = Some g" using zt_focus(1) [OF z1] by simp
      have b: "fixInsert_body_with rotateLeft rotateRight (rb, nd) = Inr (?rb4, p)"
        by (rule body_rot_RL [where rl = rotateLeft and rr = rotateRight,
              OF ndp pg(1,2) cf eqr p1 p2])
      have z3: "zt ?rb3 (Node u g (Node l nd (Node r p pr))) c2"
        using z1 by (simp add: zt_up_R)
      have e: "rotateLeft_part0 ?rb3 (Some g) = ?rb4"
        by (rule rotateLeft_part0_eq [OF z3]) (use pg(5) in simp)
      have b0: "fixInsert_body_with rotateLeft_part0 rotateRight_part0 (rb, nd) = Inr (?rb4, p)"
        using body_rot_RL [where rl = rotateLeft_part0 and rr = rotateRight_part0,
              OF ndp pg(1,2) cf eqr] p1 p2 e1 e by simp
      have z4: "zt ?rb4 (Node (Node u g l) nd (Node r p pr)) c2"
        by (rule rotateLeft_zt [OF z3])
      then have z4': "zt ?rb4 (Node r p pr) (RightOf (Node u g l) nd # c2)"
        by (simp add: zt_up_R)
      have rb: "color ?rb4 (root ?rb4) = black"
      proof (cases "c2 = []")
        case True
        with z4 have "root ?rb4 = Some nd" by (simp add: zt_def)
        then show ?thesis using pg(5) by (simp add: color_def)
      next
        case False
        show ?thesis
        proof (rule root_black_frame [OF zg z4 False rootb])
          from zt_distinct [OF zg] tp have "g \<notin> set (caddrs c2)" "nd \<notin> set (caddrs c2)"
            by auto
          then show "\<forall>a\<in>set (caddrs c2). clr (heap ?rb4 a) = clr (heap rb a)" by auto
        qed
      qed
      have "inorder (plug (Node r p pr) (RightOf (Node u g l) nd # c2)) = xs"
        using iop tp by (simp add: inorder_plug)
      with z4' rb vs have "FIinv xs rb0 ?rb4 (Node r p pr) (RightOf (Node u g l) nd # c2)"
        by (simp add: FIinv_def)
      with b b0 show ?thesis by fastforce
    qed
  qed
qed

section \<open>fixInsert returns\<close>

lemma FI_step:
  assumes inv: "FIinv xs rb0 rb (Node l nd r) c"
    and cond: "color rb (parent (heap rb nd)) = red"
  shows "\<exists>rb' nd' l' r' c'.
           fixInsert_body_with rotateLeft rotateRight (rb, nd) = Inr (rb', nd') \<and>
           fixInsert_body_with rotateLeft_part0 rotateRight_part0 (rb, nd) = Inr (rb', nd') \<and>
           FIinv xs rb0 rb' (Node l' nd' r') c' \<and> length c' < length c"
proof -
  from inv have z: "zt rb (Node l nd r) c" and rootb: "c = [] \<or> color rb (root rb) = black"
    by (auto simp: FIinv_def)
  from zt_focus(1) [OF z] cond obtain f c1 where c: "c = f # c1"
    by (cases c) (auto simp: color_def)
  with zt_focus(1) [OF z] cond have pr: "clr (heap rb (faddr f)) = red"
    by (simp add: color_def)
  have "c1 \<noteq> []"
  proof
    assume "c1 = []"
    with z c have "root rb = Some (faddr f)" by (simp add: zt_def)
    with rootb c pr show False by (simp add: color_def)
  qed
  then obtain f1 c2 where c1: "c1 = f1 # c2" by (cases c1) auto
  show ?thesis
  proof (cases f1)
    case (LeftOf g u)
    with FI_step_L [of xs rb0 rb l nd r f g u c2] inv cond c c1 show ?thesis by simp
  next
    case (RightOf u g)
    with FI_step_R [of xs rb0 rb l nd r f u g c2] inv cond c c1 show ?thesis by simp
  qed
qed

definition FIstate :: "nat list \<Rightarrow> 'a RBTree \<Rightarrow> 'a RBTree \<times> nat \<Rightarrow> nat \<Rightarrow> bool" where
  "FIstate xs rb0 s k = (\<exists>l r c. FIinv xs rb0 (fst s) (Node l (snd s) r) c \<and> length c = k)"

lemma fixInsert_loop:
  assumes "FIinv xs rb0 rb (Node l n r) c"
  shows "\<exists>rb' nd' k.
           whileE (\<lambda>(rb, nd). color rb (parent (heap rb nd)) = red)
                  (\<lambda>s. Some (fixInsert_body_with rotateLeft rotateRight s)) (rb, n) = Some (Inr (rb', nd')) \<and>
           whileE (\<lambda>(rb, nd). color rb (parent (heap rb nd)) = red)
                  (\<lambda>s. Some (fixInsert_body_with rotateLeft_part0 rotateRight_part0 s)) (rb, n) = Some (Inr (rb', nd')) \<and>
           FIstate xs rb0 (rb', nd') k"
proof -
  let ?c = "\<lambda>(rb, nd). color rb (parent (heap rb nd)) = red"
  let ?b = "\<lambda>s. Some (fixInsert_body_with rotateLeft rotateRight s)"
  let ?b' = "\<lambda>s. Some (fixInsert_body_with rotateLeft_part0 rotateRight_part0 s)"
  have i: "FIstate xs rb0 (rb, n) (length c)"
    using assms by (auto simp: FIstate_def)
  have step: "?b' s = ?b s \<and> (\<exists>s' m. ?b s = Some (Inr s') \<and> FIstate xs rb0 s' m \<and> m < k)"
    if "FIstate xs rb0 s k" "?c s" for s k
  proof -
    obtain rb1 nd1 where s: "s = (rb1, nd1)" by (cases s)
    with that obtain l1 r1 c1 where
      "FIinv xs rb0 rb1 (Node l1 nd1 r1) c1" "length c1 = k" "color rb1 (parent (heap rb1 nd1)) = red"
      by (auto simp: FIstate_def)
    from FI_step [OF this(1,3)] this(2) s show ?thesis
      by (fastforce simp: FIstate_def)
  qed
  have e: "whileE ?c ?b' (rb, n) = whileE ?c ?b (rb, n)"
    by (rule whileE_eq [where I = "FIstate xs rb0", OF i]) (use step in blast)
  have "\<exists>s' m. whileE ?c ?b (rb, n) = Some (Inr s') \<and> FIstate xs rb0 s' m \<and> \<not> ?c s'"
    by (rule whileE_total [where I = "FIstate xs rb0", OF i]) (use step in blast)
  with e show ?thesis by fastforce
qed

lemma fixInsert_ok:
  assumes "FIinv xs rb0 rb (Node l n r) c" "clr (heap rb n) = red"
  shows "\<exists>rb' T. fixInsert rb (Some n) = Some (Inr rb') \<and>
           fixInsert_part0 rb (Some n) = Some (Inr rb') \<and>
           is_tree rb' T \<and> inorder T = xs \<and> color rb' (root rb') = black \<and>
           (\<forall>a. val (heap rb' a) = val (heap rb0 a)) \<and> len rb' = len rb0 \<and> nxt rb' = nxt rb0"
proof -
  from fixInsert_loop [OF assms(1)] obtain rb1 nd1 k where
    w: "whileE (\<lambda>(rb, nd). color rb (parent (heap rb nd)) = red)
          (\<lambda>s. Some (fixInsert_body_with rotateLeft rotateRight s)) (rb, n) = Some (Inr (rb1, nd1))"
       "whileE (\<lambda>(rb, nd). color rb (parent (heap rb nd)) = red)
          (\<lambda>s. Some (fixInsert_body_with rotateLeft_part0 rotateRight_part0 s)) (rb, n) = Some (Inr (rb1, nd1))"
    and st: "FIstate xs rb0 (rb1, nd1) k" by blast
  from st obtain l1 r1 c1 where inv: "FIinv xs rb0 rb1 (Node l1 nd1 r1) c1"
    by (auto simp: FIstate_def)
  then have z: "zt rb1 (Node l1 nd1 r1) c1" by (simp add: FIinv_def)
  then have "root rb1 \<noteq> None"
    by (cases c1) (use zt_root_in [OF z] in \<open>auto simp: zt_def\<close>)
  then obtain ra where ra: "root rb1 = Some ra" by auto
  let ?rb' = "set_clr rb1 ra black"
  have "is_tree ?rb' (plug (Node l1 nd1 r1) c1)"
    using z by (simp add: is_tree_plug)
  moreover have "fixInsert rb (Some n) = Some (Inr ?rb')" "fixInsert_part0 rb (Some n) = Some (Inr ?rb')"
    using w assms(2) ra
    by (simp_all add: fixInsert_def fixInsert_part0_def fixInsert_with_def color_def bindR_def
          blacken_root_def bindE_def deref_def)
  ultimately show ?thesis
    using inv ra by (auto simp: FIinv_def color_def)
qed

section \<open>The descent of Insert\<close>

fun cpath :: "(nat \<Rightarrow> ('a::linorder) node) \<Rightarrow> 'a \<Rightarrow> frame list \<Rightarrow> bool" where
  "cpath h v [] = True"
| "cpath h v (LeftOf a r # c) = (v \<le> val (h a) \<and> cpath h v c)"
| "cpath h v (RightOf l a # c) = (\<not> v \<le> val (h a) \<and> cpath h v c)"

definition DI :: "'a RBTree \<Rightarrow> ('a::linorder) \<Rightarrow> shape \<Rightarrow> ptr \<times> ptr \<Rightarrow> nat \<Rightarrow> bool" where
  "DI rb v T s k =
     (\<exists>t c. zt rb t c \<and> fst s = rootp t \<and> snd s = cparent c \<and> cpath (heap rb) v c \<and>
            plug t c = T \<and> length (inorder t) = k)"

lemma descend_loop:
  assumes "is_tree rb T"
  shows "\<exists>c. whileE (\<lambda>(nd, p). nd \<noteq> None) (\<lambda>s. Some (descend_body rb v s)) (root rb, None) =
               Some (Inr (None, cparent c)) \<and>
             zt rb Leaf c \<and> cpath (heap rb) v c \<and> plug Leaf c = T"
proof -
  let ?c = "\<lambda>(nd, p). nd \<noteq> (None::ptr)"
  let ?b = "\<lambda>s. Some (descend_body rb v s)"
  have i: "DI rb v T (root rb, None) (length (inorder T))"
    unfolding DI_def using assms is_tree_plug [of rb T "[]"]
    by (intro exI [of _ T] exI [of _ "[]"]) (simp add: is_tree_def)
  have step: "\<exists>s' m. ?b s = Some (Inr s') \<and> DI rb v T s' m \<and> m < k"
    if "DI rb v T s k" "?c s" for s k
  proof -
    from that obtain t c where t: "zt rb t c" "fst s = rootp t" "snd s = cparent c"
      "cpath (heap rb) v c" "plug t c = T" "length (inorder t) = k" "rootp t \<noteq> None"
      by (auto simp: DI_def split: prod.splits)
    then obtain l a r where n: "t = Node l a r" by (cases t) auto
    show ?thesis
    proof (cases "v \<le> val (heap rb a)")
      case True
      have "zt rb l (LeftOf a r # c)" using t(1) n by (simp add: zt_up_L)
      with t n True have "DI rb v T (rootp l, Some a) (length (inorder l))"
        unfolding DI_def by (intro exI [of _ l] exI [of _ "LeftOf a r # c"]) simp
      moreover have "?b s = Some (Inr (rootp l, Some a))"
        using t(1,2) n True zt_focus(2) [of rb l a r c]
        by (cases s) (simp add: descend_body_def bindE_def deref_def)
      ultimately show ?thesis using t(6) n by auto
    next
      case False
      have "zt rb r (RightOf l a # c)" using t(1) n by (simp add: zt_up_R)
      with t n False have "DI rb v T (rootp r, Some a) (length (inorder r))"
        unfolding DI_def by (intro exI [of _ r] exI [of _ "RightOf l a # c"]) simp
      moreover have "?b s = Some (Inr (rootp r, Some a))"
        using t(1,2) n False zt_focus(3) [of rb l a r c]
        by (cases s) (simp add: descend_body_def bindE_def deref_def)
      ultimately show ?thesis using t(6) n by auto
    qed
  qed
  have "\<exists>s' m. whileE ?c ?b (root rb, None) = Some (Inr s') \<and> DI rb v T s' m \<and> \<not> ?c s'"
    by (rule whileE_total [where I = "DI rb v T", OF i]) (use step in blast)
  then obtain s' m where w: "whileE ?c ?b (root rb, None) = Some (Inr s')"
    and d: "DI rb v T s' m" and e: "\<not> ?c s'" by blast
  from d e obtain t c where "zt rb t c" "fst s' = rootp t" "snd s' = cparent c"
      "cpath (heap rb) v c" "plug t c = T" "rootp t = None"
    by (auto simp: DI_def split: prod.splits)
  moreover then have "t = Leaf" by (cases t) auto
  ultimately show ?thesis using w by (cases s') auto
qed

section \<open>Insert on a well-formed tree\<close>

lemma attach_zt:
  assumes z: "zt rb Leaf (f # c')" and cp: "cpath (heap rb) v (f # c')"
  defines "rb2 \<equiv> set_parent (set_clr (alloc (rb\<lparr>len := len rb + 1\<rparr>) v) (nxt rb) red) (nxt rb) (Some (faddr f))"
  defines "rb3 \<equiv> (if v \<le> val (heap rb2 (faddr f)) then set_left rb2 (faddr f) (Some (nxt rb))
                   else set_right rb2 (faddr f) (Some (nxt rb)))"
  shows "zt rb3 (Node Leaf (nxt rb) Leaf) (f # c')"
    and "\<forall>a. clr (heap rb3 a) = (if a = nxt rb then red else clr (heap rb a))"
    and "\<forall>a. val (heap rb3 a) = (if a = nxt rb then v else val (heap rb a))"
    and "root rb3 = root rb" "len rb3 = len rb + 1" "nxt rb3 = Suc (nxt rb)"
proof -
  from z have "list_all (\<lambda>a. a < nxt rb) (caddrs (f # c'))" by (simp add: zt_def)
  then have nw: "nxt rb \<notin> set (caddrs (f # c'))" by (auto simp: list_all_iff)
  have lt: "list_all (\<lambda>a. a < Suc (nxt rb)) xs" if "list_all (\<lambda>a. a < nxt rb) xs" for xs
    using that by (auto simp: list_all_iff)
  show "zt rb3 (Node Leaf (nxt rb) Leaf) (f # c')"
    using z cp nw lt
    by (cases f) (auto simp: zt_def rb3_def rb2_def alloc_def heap_setters setters)
  show "\<forall>a. clr (heap rb3 a) = (if a = nxt rb then red else clr (heap rb a))"
    using nw by (cases f) (auto simp: rb3_def rb2_def alloc_def setters)
  show "\<forall>a. val (heap rb3 a) = (if a = nxt rb then v else val (heap rb a))"
    using nw by (cases f) (auto simp: rb3_def rb2_def alloc_def setters)
  show "root rb3 = root rb" "len rb3 = len rb + 1" "nxt rb3 = Suc (nxt rb)"
    by (auto simp: rb3_def rb2_def alloc_def setters)
qed

lemma Insert_shape:
  assumes t: "is_tree rb T" and rootb: "color rb (root rb) = black"
  shows "\<exists>rb' T' c. Insert rb v = Some (Inr rb') \<and> Insert_part0 rb v = Some (Inr rb') \<and>
           is_tree rb' T' \<and> color rb' (root rb') = black \<and>
           cpath (heap rb) v c \<and> inorder T = cleft c @ cright c \<and>
           inorder T' = cleft c @ nxt rb # cright c \<and>
           (\<forall>a. val (heap rb' a) = (if a = nxt rb then v else val (heap rb a))) \<and>
           len rb' = len rb + 1 \<and> nxt rb' = Suc (nxt rb)"
proof -
  from descend_loop [OF t, of v] obtain c where
    w: "whileE (\<lambda>(nd, p). nd \<noteq> None) (\<lambda>s. Some (descend_body rb v s)) (root rb, None) =
          Some (Inr (None, cparent c))"
    and z: "zt rb Leaf c" and cp: "cpath (heap rb) v c" and pl: "plug Leaf c = T" by blast
  from pl have io: "inorder T = cleft c @ cright c"
    using inorder_plug [of Leaf c] by simp
  show ?thesis
  proof (cases c)
    case Nil
    let ?rb' = "(set_clr (alloc (rb\<lparr>len := len rb + 1\<rparr>) v) (nxt rb) black)\<lparr>root := Some (nxt rb)\<rparr>"
    have "Insert rb v = Some (Inr ?rb')" "Insert_part0 rb v = Some (Inr ?rb')"
      using w Nil by (simp_all add: Insert_def Insert_part0_def Insert_with_def bindR_def Let_def)
    moreover have "is_tree ?rb' (Node Leaf (nxt rb) Leaf)"
      by (simp add: is_tree_def alloc_def setters)
    moreover have "color ?rb' (root ?rb') = black"
      by (simp add: color_def alloc_def setters)
    moreover have "\<forall>a. val (heap ?rb' a) = (if a = nxt rb then v else val (heap rb a))"
      "len ?rb' = len rb + 1" "nxt ?rb' = Suc (nxt rb)"
      by (simp_all add: alloc_def setters)
    ultimately show ?thesis using io cp Nil
      by (intro exI [of _ ?rb'] exI [of _ "Node Leaf (nxt rb) Leaf"] exI [of _ c]) simp
  next
    case (Cons f c')
    define rb2 where "rb2 = set_parent (set_clr (alloc (rb\<lparr>len := len rb + 1\<rparr>) v) (nxt rb) red) (nxt rb) (Some (faddr f))"
    define rb3 where "rb3 = (if v \<le> val (heap rb2 (faddr f)) then set_left rb2 (faddr f) (Some (nxt rb))
                   else set_right rb2 (faddr f) (Some (nxt rb)))"
    note a = attach_zt [OF z [unfolded Cons] cp [unfolded Cons], folded rb2_def, folded rb3_def]
    have i1: "Insert rb v = fixInsert rb3 (Some (nxt rb))"
      and i2: "Insert_part0 rb v = fixInsert_part0 rb3 (Some (nxt rb))"
      using w Cons
      by (simp_all add: Insert_def Insert_part0_def Insert_with_def bindR_def Let_def rb3_def rb2_def
            fixInsert_def fixInsert_part0_def)
    have rb: "color rb3 (root rb3) = black"
    proof -
      from zt_root_in [OF z] Cons obtain x where "x \<in> set (caddrs c)" "root rb = Some x" by auto
      moreover from z have "list_all (\<lambda>a. a < nxt rb) (caddrs c)" by (simp add: zt_def)
      ultimately have "x \<noteq> nxt rb" "root rb = Some x" by (auto simp: list_all_iff)
      with a(2,4) rootb show ?thesis by (simp add: color_def)
    qed
    have "FIinv (cleft c @ nxt rb # cright c) rb3 rb3 (Node Leaf (nxt rb) Leaf) c"
      using a(1) rb Cons by (simp add: FIinv_def inorder_plug)
    from fixInsert_ok [OF this] a(2) obtain rb' T' where
      "fixInsert rb3 (Some (nxt rb)) = Some (Inr rb')"
      "fixInsert_part0 rb3 (Some (nxt rb)) = Some (Inr rb')"
      "is_tree rb' T'" "inorder T' = cleft c @ nxt rb # cright c" "color rb' (root rb') = black"
      "\<forall>a. val (heap rb' a) = val (heap rb3 a)" "len rb' = len rb3" "nxt rb' = nxt rb3"
      by auto
    with i1 i2 a(3,5,6) io cp show ?thesis
      by (intro exI [of _ rb'] exI [of _ T'] exI [of _ c]) simp
  qed
qed

section \<open>Search trees: findNode and Insert\<close>

lemma cpath_bounds:
  "cpath h v c \<Longrightarrow> sorted (map (\<lambda>a. val (h a)) (cleft c @ cright c)) \<Longrightarrow>
   (\<forall>a \<in> set (cleft c). val (h a) \<le> v) \<and> (\<forall>a \<in> set (cright c). v \<le> val (h a))"
proof (induction h v c rule: cpath.induct)
  case (1 h v)
  then show ?case by simp
next
  case (2 h v a r c)
  from "2.prems" have va: "v \<le> val (h a)" and cp: "cpath h v c" by auto
  from "2.prems"(2) have s: "sorted (map (\<lambda>a. val (h a)) (cleft c @ cright c))"
    and ar: "\<forall>x\<in>set (inorder r). val (h a) \<le> val (h x)"
    by (auto simp: sorted_append)
  from va ar have "\<forall>x\<in>set (inorder r). v \<le> val (h x)"
    by (meson order_trans)
  with "2.IH" [OF cp s] va show ?case by auto
next
  case (3 h v l a c)
  from "3.prems" have va: "val (h a) \<le> v" and cp: "cpath h v c" by auto
  from "3.prems"(2) have s: "sorted (map (\<lambda>a. val (h a)) (cleft c @ cright c))"
    and al: "\<forall>x\<in>set (inorder l). val (h x) \<le> val (h a)"
    by (auto simp: sorted_append)
  from va al have "\<forall>x\<in>set (inorder l). val (h x) \<le> v"
    by (meson order_trans)
  with "3.IH" [OF cp s] va show ?case by auto
qed

lemma findNode_loop_wft:
  "wft (heap rb) par t \<Longrightarrow> sorted (map (\<lambda>a. val (heap rb a)) (inorder t)) \<Longrightarrow>
   \<exists>res. findNode_loop rb v (rootp t) = Some res \<and>
         (res \<noteq> None) = (v \<in> set (map (\<lambda>a. val (heap rb a)) (inorder t))) \<and>
         (\<forall>a. res = Some a \<longrightarrow> a \<in> set (inorder t) \<and> val (heap rb a) = v)"
proof (induction t arbitrary: par)
  case Leaf
  then show ?case by (simp add: findNode_loop.simps)
next
  case (Node l a r)
  from Node.prems have wl: "wft (heap rb) (Some a) l" and wr: "wft (heap rb) (Some a) r"
    and sl: "sorted (map (\<lambda>a. val (heap rb a)) (inorder l))"
    and sr: "sorted (map (\<lambda>a. val (heap rb a)) (inorder r))"
    and bl: "\<forall>x \<in> set (inorder l). val (heap rb x) \<le> val (heap rb a)"
    and br: "\<forall>x \<in> set (inorder r). val (heap rb a) \<le> val (heap rb x)"
    and lr: "left (heap rb a) = rootp l" "right (heap rb a) = rootp r"
    by (auto simp: sorted_append)
  consider "val (heap rb a) = v" | "val (heap rb a) < v" | "v < val (heap rb a)"
    by fastforce
  then show ?case
  proof cases
    case 1
    then show ?thesis by (subst findNode_loop.simps) simp
  next
    case 2
    from Node.IH(2) [OF wr sr] obtain res where
      "findNode_loop rb v (rootp r) = Some res"
      "(res \<noteq> None) = (v \<in> set (map (\<lambda>a. val (heap rb a)) (inorder r)))"
      "\<forall>a. res = Some a \<longrightarrow> a \<in> set (inorder r) \<and> val (heap rb a) = v" by blast
    moreover have "v \<notin> set (map (\<lambda>a. val (heap rb a)) (inorder l))"
      using 2 bl by (auto simp: image_iff)
    moreover have "findNode_loop rb v (rootp (Node l a r)) = findNode_loop rb v (rootp r)"
      using 2 lr by (subst findNode_loop.simps) auto
    ultimately show ?thesis using 2 by (intro exI [of _ res]) auto
  next
    case 3
    from Node.IH(1) [OF wl sl] obtain res where
      "findNode_loop rb v (rootp l) = Some res"
      "(res \<noteq> None) = (v \<in> set (map (\<lambda>a. val (heap rb a)) (inorder l)))"
      "\<forall>a. res = Some a \<longrightarrow> a \<in> set (inorder l) \<and> val (heap rb a) = v" by blast
    moreover have "v \<notin> set (map (\<lambda>a. val (heap rb a)) (inorder r))"
      using 3 br by (auto simp: image_iff)
    moreover have "findNode_loop rb v (rootp (Node l a r)) = findNode_loop rb v (rootp l)"
      using 3 lr by (subst findNode_loop.simps) auto
    ultimately show ?thesis using 3 by (intro exI [of _ res]) auto
  qed
qed

lemma findNode_tree:
  assumes "is_tree rb T" "sorted (vals rb T)"
  shows "\<exists>res. findNode rb v = Some res \<and> (res \<noteq> None) = (v \<in> set (vals rb T)) \<and>
           (\<forall>a. res = Some a \<longrightarrow> a \<in> set (inorder T) \<and> val (heap rb a) = v)"
  using findNode_loop_wft [of rb None T v] assms
  by (simp add: is_tree_def vals_def findNode_def)

lemma Exists_tree:
  assumes "is_tree rb T" "sorted (vals rb T)"
  shows "Exists rb v = Some (v \<in> set (vals rb T))"
  using findNode_tree [OF assms, of v] by (auto simp: Exists_def)

definition bst_inv :: "('a::linorder) RBTree \<Rightarrow> shape \<Rightarrow> bool" where
  "bst_inv rb T =
     (is_tree rb T \<and> color rb (root rb) = black \<and> sorted (vals rb T) \<and>
      len rb = int (length (inorder T)))"

lemma Insert_bst:
  assumes "bst_inv rb T"
  shows "\<exists>rb' T'. Insert rb v = Some (Inr rb') \<and> Insert_part0 rb v = Some (Inr rb') \<and>
           bst_inv rb' T' \<and> mset (vals rb' T') = add_mset v (mset (vals rb T)) \<and>
           Exists rb' v = Some True"
proof -
  from assms have t: "is_tree rb T" and rootb: "color rb (root rb) = black"
    and s: "sorted (vals rb T)" and n: "len rb = int (length (inorder T))"
    by (auto simp: bst_inv_def)
  from Insert_shape [OF t rootb, of v] obtain rb' T' c where
    i: "Insert rb v = Some (Inr rb')" "Insert_part0 rb v = Some (Inr rb')"
    and t': "is_tree rb' T'" and rootb': "color rb' (root rb') = black"
    and cp: "cpath (heap rb) v c" and io: "inorder T = cleft c @ cright c"
    and io': "inorder T' = cleft c @ nxt rb # cright c"
    and v': "\<forall>a. val (heap rb' a) = (if a = nxt rb then v else val (heap rb a))"
    and n': "len rb' = len rb + 1" by blast
  from t io have "nxt rb \<notin> set (cleft c)" "nxt rb \<notin> set (cright c)"
    by (auto simp: is_tree_def list_all_iff)
  with v' have m: "map (\<lambda>a. val (heap rb' a)) (cleft c) = map (\<lambda>a. val (heap rb a)) (cleft c)"
    "map (\<lambda>a. val (heap rb' a)) (cright c) = map (\<lambda>a. val (heap rb a)) (cright c)"
    by auto
  have vs: "vals rb' T' = map (\<lambda>a. val (heap rb a)) (cleft c) @ v # map (\<lambda>a. val (heap rb a)) (cright c)"
    using io' m v' by (simp add: vals_def)
  have vs0: "vals rb T = map (\<lambda>a. val (heap rb a)) (cleft c) @ map (\<lambda>a. val (heap rb a)) (cright c)"
    using io by (simp add: vals_def)
  from cpath_bounds [OF cp] s vs0 have
    b: "\<forall>a \<in> set (cleft c). val (heap rb a) \<le> v" "\<forall>a \<in> set (cright c). v \<le> val (heap rb a)"
    by auto
  have s': "sorted (vals rb' T')"
    using s b unfolding vs vs0 by (auto simp: sorted_append)
  have "bst_inv rb' T'"
    using t' rootb' s' n n' io io' by (simp add: bst_inv_def)
  moreover have "mset (vals rb' T') = add_mset v (mset (vals rb T))"
    unfolding vs vs0 by simp
  moreover have "Exists rb' v = Some True"
    using Exists_tree [OF t' s', of v] vs by simp
  ultimately show ?thesis using i by blast
qed

lemma bst_inv_New: "bst_inv NewRBTree Leaf"
  by (simp add: bst_inv_def is_tree_def NewRBTree_def color_def vals_def)

lemma run_inserts_eq:
  "bst_inv rb T \<Longrightarrow>
   \<exists>rb' T'. run_inserts Insert rb vs = Some (Inr rb') \<and>
           run_inserts Insert_part0 rb vs = Some (Inr rb') \<and> bst_inv rb' T' \<and>
           mset (vals rb' T') = mset vs + mset (vals rb T)"
proof (induction vs arbitrary: rb T)
  case Nil
  then show ?case by auto
next
  case (Cons v vs)
  from Insert_bst [OF Cons.prems, of v] obtain rb1 T1 where
    i: "Insert rb v = Some (Inr rb1)" "Insert_part0 rb v = Some (Inr rb1)"
    and b: "bst_inv rb1 T1" and m: "mset (vals rb1 T1) = add_mset v (mset (vals rb T))" by blast
  from Cons.IH [OF b] obtain rb' T' where
    "run_inserts Insert rb1 vs = Some (Inr rb')" "run_inserts Insert_part0 rb1 vs = Some (Inr rb')"
    "bst_inv rb' T'" "mset (vals rb' T') = mset vs + mset (vals rb1 T1)" by blast
  with i m show ?case by (auto simp: bindR_def)
qed

section \<open>Exists after Insert\<close>

text \<open>C9: on every well-formed search tree (the store holds a tree whose links are
  consistent, whose root is black, whose values are in order and whose \<^verbatim>\<open>len\<close> is its
  size), \<^verbatim>\<open>Insert(v)\<close> returns, and \<^verbatim>\<open>Exists(v)\<close> on the tree it leaves returns true.\<close>

theorem Insert_then_Exists:
  "bst_inv rb T \<Longrightarrow> \<exists>rb'. Insert rb v = Some (Inr rb') \<and> Exists rb' v = Some True"
  using Insert_bst [of rb T v] by blast

theorem Insert_then_Exists_witness:
  "bst_inv (tree_of_ops [OpInsert 1, OpInsert 2, OpInsert 3, OpInsert (4::int)])
     (Node (Node Leaf 0 Leaf) 1 (Node Leaf 2 (Node Leaf 3 Leaf))) \<and>
   (\<exists>rb'. Insert (tree_of_ops [OpInsert 1, OpInsert 2, OpInsert 3, OpInsert (4::int)]) 3 =
            Some (Inr rb') \<and> Exists rb' 3 = Some True)"
proof -
  have h: "bst_inv (tree_of_ops [OpInsert 1, OpInsert 2, OpInsert 3, OpInsert (4::int)])
             (Node (Node Leaf 0 Leaf) 1 (Node Leaf 2 (Node Leaf 3 Leaf)))"
    by code_simp
  from Insert_then_Exists [OF h, of 3] h show ?thesis by blast
qed

section \<open>The two versions of Insert\<close>

text \<open>C10: for every sequence of values inserted into the empty tree, the \<^verbatim>\<open>Insert\<close> of
  \<^verbatim>\<open>src/bst/rb.go\<close> and the \<^verbatim>\<open>Insert\<close> of \<^verbatim>\<open>src/unnamed/part_000\<close> both return, and
  they leave the same tree: the same root, the same store (shape, values and colours
  of all nodes) and the same length.\<close>

theorem Insert_versions_agree:
  "\<exists>rb. run_inserts Insert NewRBTree vs = Some (Inr rb) \<and>
        run_inserts Insert_part0 NewRBTree vs = Some (Inr rb)"
  using run_inserts_eq [OF bst_inv_New, of vs] by blast

end
